theory Spec2Isabelle
  imports Main
begin

section \<open>Values crossing the JavaScript / PostgreSQL boundary\<close>

text \<open>
  The user id of a request body is a JavaScript value: a string, \<open>null\<close>, or
  \<open>undefined\<close> when the field is absent. A \<open>TEXT\<close> column holds a string or
  \<open>NULL\<close>. The client library writes both \<open>null\<close> and \<open>undefined\<close> as
  \<open>NULL\<close> and reads \<open>NULL\<close> back as \<open>null\<close>.
\<close>

datatype jsval = JUndefined | JNull | JString string

fun truthy :: "jsval \<Rightarrow> bool" where
  "truthy (JString s) = (s \<noteq> [])"
| "truthy JNull = False"
| "truthy JUndefined = False"

fun to_db :: "jsval \<Rightarrow> string option" where
  "to_db (JString s) = Some s"
| "to_db JNull = None"
| "to_db JUndefined = None"

fun from_db :: "string option \<Rightarrow> jsval" where
  "from_db (Some s) = JString s"
| "from_db None = JNull"

text \<open>Integer request fields (\<open>postid\<close>, \<open>parent_id\<close>): \<open>None\<close> is \<open>null\<close> or an absent
  field; the only falsy number is \<open>0\<close>.\<close>

fun truthy_int :: "int option \<Rightarrow> bool" where
  "truthy_int (Some n) = (n \<noteq> 0)"
| "truthy_int None = False"

section \<open>Tables\<close>

text \<open>One record per table of \<open>init\<close>; a table is the list of its rows. Field names carry
  a table prefix because the tables share column names.\<close>

record post =
  p_id :: int
  p_title :: string
  p_content :: string
  p_created_at :: nat
  p_category :: "string option"
  p_tags :: "string list option"
  p_likes :: "string option list option"
  p_user_id :: "string option"

record comment =
  c_id :: int
  c_postid :: "int option"
  c_userid :: "string option"
  c_content :: string
  c_parent_id :: "int option"
  c_createdat :: nat

text \<open>The \<open>id\<close> columns of \<open>comment_likes\<close> and \<open>notifications\<close> are never read by
  the routes below and are left out.\<close>

record comment_like =
  cl_comment_id :: int
  cl_userid :: "string option"

record notification =
  n_user_id :: string
  n_type :: string
  n_post_id :: int
  n_comment_id :: int

record db =
  posts :: "post list"
  comments :: "comment list"
  comments_id_seq :: int
  comment_likes :: "comment_like list"
  notifications :: "notification list"

datatype db_error = NotNullViolation | UniqueViolation | ForeignKeyViolation

text \<open>What a handler does with \<open>res\<close>: a JSON body, a status with a text body, a bare
  status, or nothing at all when an awaited query rejects (no handler catches).\<close>

datatype 'a response = Json 'a | Status nat string | SendStatus nat | Rejected db_error

section \<open>Like toggle on posts (array encoding)\<close>

text \<open>Lines 125 to 130: \<open>includes\<close>, then \<open>filter\<close> or \<open>push\<close>.\<close>

definition toggleLikes :: "jsval list \<Rightarrow> jsval \<Rightarrow> jsval list" where
  "toggleLikes likes userId =
     (if userId \<in> set likes then filter (\<lambda>uid. uid \<noteq> userId) likes else likes @ [userId])"

text \<open>\<open>post.rows[0].likes || []\<close>: an array is truthy even when empty, so only \<open>NULL\<close>
  falls through to \<open>[]\<close>.\<close>

definition likes_or_empty :: "post \<Rightarrow> jsval list" where
  "likes_or_empty p = (case p_likes p of None \<Rightarrow> [] | Some a \<Rightarrow> map from_db a)"

definition update_likes :: "int \<Rightarrow> jsval list \<Rightarrow> post list \<Rightarrow> post list" where
  "update_likes pid likes ps =
     map (\<lambda>p. if p_id p = pid then p\<lparr>p_likes := Some (map to_db likes)\<rparr> else p) ps"

definition togglePostLike :: "int \<Rightarrow> jsval \<Rightarrow> db \<Rightarrow> db \<times> post response" where
  "togglePostLike pid userId s =
     (case filter (\<lambda>p. p_id p = pid) (posts s) of
        [] \<Rightarrow> (s, Status 404 ''Post not found'')
      | p # _ \<Rightarrow>
          (let likes = toggleLikes (likes_or_empty p) userId;
               ps = update_likes pid likes (posts s)
           in (s\<lparr>posts := ps\<rparr>, Json (hd (filter (\<lambda>p. p_id p = pid) ps)))))"

text \<open>The likes array stored for a post id, as the route reads it (first row, \<open>NULL\<close> as
  empty).\<close>

definition stored_likes :: "int \<Rightarrow> db \<Rightarrow> string option list" where
  "stored_likes pid s =
     (case filter (\<lambda>p. p_id p = pid) (posts s) of
        [] \<Rightarrow> []
      | p # _ \<Rightarrow> (case p_likes p of None \<Rightarrow> [] | Some a \<Rightarrow> a))"

definition post_members :: "int \<Rightarrow> db \<Rightarrow> string option set" where
  "post_members pid s = set (stored_likes pid s)"

section \<open>Like toggle on comments (join relation)\<close>

text \<open>\<open>comment_id = $1 AND userid = $2\<close>: an SQL equality with \<open>NULL\<close> on either side
  selects nothing.\<close>

definition like_matches :: "int \<Rightarrow> string option \<Rightarrow> comment_like \<Rightarrow> bool" where
  "like_matches cid uid l \<longleftrightarrow> cl_comment_id l = cid \<and> uid \<noteq> None \<and> cl_userid l = uid"

text \<open>\<open>INSERT ... ON CONFLICT DO NOTHING\<close>: a pair already present (\<open>UNIQUE\<close>) leaves the
  table alone; otherwise the foreign key to \<open>comments\<close> is checked and the row appended.\<close>

definition insert_comment_like :: "int \<Rightarrow> string option \<Rightarrow> db \<Rightarrow> db_error + db" where
  "insert_comment_like cid uid s =
     (if \<exists>l \<in> set (comment_likes s). like_matches cid uid l then Inr s
      else if cid \<notin> c_id ` set (comments s) then Inl ForeignKeyViolation
      else Inr (s\<lparr>comment_likes := comment_likes s @ [\<lparr>cl_comment_id = cid, cl_userid = uid\<rparr>]\<rparr>))"

text \<open>The closing \<open>SELECT\<close>: the comment row with the user ids of its likes aggregated;
  \<open>rows[0]\<close> is \<open>undefined\<close> (here \<open>None\<close>) when the comment does not exist.\<close>

definition comment_with_likes :: "int \<Rightarrow> db \<Rightarrow> (comment \<times> string option list) option" where
  "comment_with_likes cid s =
     (case filter (\<lambda>c. c_id c = cid) (comments s) of
        [] \<Rightarrow> None
      | c # _ \<Rightarrow> Some (c, map cl_userid (filter (\<lambda>l. cl_comment_id l = cid) (comment_likes s))))"

definition toggleCommentLike ::
    "int \<Rightarrow> jsval \<Rightarrow> db \<Rightarrow> db \<times> (comment \<times> string option list) option response" where
  "toggleCommentLike cid userId s =
     (let uid = to_db userId in
      if filter (like_matches cid uid) (comment_likes s) \<noteq> [] then
        (let s' = s\<lparr>comment_likes := filter (\<lambda>l. \<not> like_matches cid uid l) (comment_likes s)\<rparr>
         in (s', Json (comment_with_likes cid s')))
      else
        (case insert_comment_like cid uid s of
           Inl e \<Rightarrow> (s, Rejected e)
         | Inr s' \<Rightarrow> (s', Json (comment_with_likes cid s'))))"

definition comment_members :: "int \<Rightarrow> db \<Rightarrow> string option set" where
  "comment_members cid s = cl_userid ` {l \<in> set (comment_likes s). cl_comment_id l = cid}"

section \<open>Pagination parameters\<close>












section \<open>Creating a comment\<close>

text \<open>The fields the route destructures from \<open>req.body\<close>.\<close>

record comment_body =
  postid :: "int option"
  userid :: jsval
  content :: "string option"
  parent_id :: "int option"

text \<open>
  \<open>INSERT INTO comments ... RETURNING *\<close>. The new id is the next value of the
  sequence, which stays consumed when the statement fails. \<open>content\<close> is \<open>NOT NULL\<close>,
  \<open>id\<close> is the primary key, and the two foreign keys are checked once the row is in
  the table, so a row may name itself as its parent.
\<close>

definition insert_comment ::
    "int option \<Rightarrow> string option \<Rightarrow> string option \<Rightarrow> int option \<Rightarrow> nat \<Rightarrow> db
      \<Rightarrow> db \<times> (db_error + comment)" where
  "insert_comment pid uid text par now s =
     (let new_id = comments_id_seq s + 1;
          s1 = s\<lparr>comments_id_seq := new_id\<rparr>
      in case text of
           None \<Rightarrow> (s1, Inl NotNullViolation)
         | Some t \<Rightarrow>
             (let row = \<lparr>c_id = new_id, c_postid = pid, c_userid = uid, c_content = t,
                         c_parent_id = par, c_createdat = now\<rparr>
              in if new_id \<in> c_id ` set (comments s) then (s1, Inl UniqueViolation)
                 else if (case pid of None \<Rightarrow> True | Some p \<Rightarrow> p \<in> p_id ` set (posts s))
                       \<and> (case par of None \<Rightarrow> True
                            | Some q \<Rightarrow> q \<in> c_id ` set (comments s @ [row]))
                 then (s1\<lparr>comments := comments s @ [row]\<rparr>, Inr row)
                 else (s1, Inl ForeignKeyViolation)))"

text \<open>Lines 148 to 164: the values of \<open>notifyUserId\<close> and \<open>type\<close> after the two
  branches. \<open>!==\<close> on strings, \<open>null\<close> and \<open>undefined\<close> is inequality of \<open>jsval\<close>.\<close>

definition deriveRecipient :: "int option \<Rightarrow> jsval \<Rightarrow> int option \<Rightarrow> db \<Rightarrow> jsval \<times> string" where
  "deriveRecipient par uid pid s =
     (if truthy_int par then
        (case filter (\<lambda>c. Some (c_id c) = par) (comments s) of
           [] \<Rightarrow> (JNull, ''comment'')
         | parent # _ \<Rightarrow>
             if from_db (c_userid parent) \<noteq> uid then (from_db (c_userid parent), ''reply'')
             else (JNull, ''comment''))
      else
        (case filter (\<lambda>p. Some (p_id p) = pid) (posts s) of
           [] \<Rightarrow> (JNull, ''comment'')
         | post # _ \<Rightarrow>
             if from_db (p_user_id post) \<noteq> uid then (from_db (p_user_id post), ''comment'')
             else (JNull, ''comment'')))"

text \<open>Line 165, \<open>if (notifyUserId)\<close>: the recipient and type the notification is
  written with, or \<open>None\<close> when none is written.\<close>

definition notification_for ::
    "int option \<Rightarrow> jsval \<Rightarrow> int option \<Rightarrow> db \<Rightarrow> (jsval \<times> string) option" where
  "notification_for par uid pid s =
     (case deriveRecipient par uid pid s of
        (notifyUserId, type) \<Rightarrow> if truthy notifyUserId then Some (notifyUserId, type) else None)"

text \<open>\<open>INSERT INTO notifications\<close>: every column is \<open>NOT NULL\<close>; the table has no
  foreign key.\<close>

definition insert_notification ::
    "string option \<Rightarrow> string \<Rightarrow> int option \<Rightarrow> int \<Rightarrow> db \<Rightarrow> db_error + db" where
  "insert_notification uid type pid cid s =
     (case (uid, pid) of
        (Some u, Some p) \<Rightarrow>
          Inr (s\<lparr>notifications := notifications s @
                 [\<lparr>n_user_id = u, n_type = type, n_post_id = p, n_comment_id = cid\<rparr>]\<rparr>)
      | _ \<Rightarrow> Inl NotNullViolation)"

text \<open>\<open>parent_id || null\<close>.\<close>

definition or_null :: "int option \<Rightarrow> int option" where
  "or_null par = (if truthy_int par then par else None)"

text \<open>The route \<open>POST /api/comments\<close>; \<open>now\<close> is the clock reading stored in
  \<open>createdat\<close>. Each statement commits on its own, and a rejected query ends the
  handler before \<open>res.json\<close>.\<close>

definition createComment :: "comment_body \<Rightarrow> nat \<Rightarrow> db \<Rightarrow> db \<times> comment response" where
  "createComment body now s =
     (case insert_comment (postid body) (to_db (userid body)) (content body)
             (or_null (parent_id body)) now s of
        (s1, Inl e) \<Rightarrow> (s1, Rejected e)
      | (s1, Inr comment) \<Rightarrow>
          (case notification_for (parent_id body) (userid body) (postid body) s1 of
             None \<Rightarrow> (s1, Json comment)
           | Some (notifyUserId, type) \<Rightarrow>
               (case insert_notification (to_db notifyUserId) type (postid body)
                       (c_id comment) s1 of
                  Inl e \<Rightarrow> (s1, Rejected e)
                | Inr s2 \<Rightarrow> (s2, Json comment))))"

text \<open>The author of the comment a reply names, and of the post a comment is on, as the
  route reads them; \<open>None\<close> when there is no such row.\<close>

definition parent_author :: "int option \<Rightarrow> db \<Rightarrow> jsval option" where
  "parent_author par s =
     (case filter (\<lambda>c. Some (c_id c) = par) (comments s) of
        [] \<Rightarrow> None
      | parent # _ \<Rightarrow> Some (from_db (c_userid parent)))"

definition post_author :: "int option \<Rightarrow> db \<Rightarrow> jsval option" where
  "post_author pid s =
     (case filter (\<lambda>p. Some (p_id p) = pid) (posts s) of
        [] \<Rightarrow> None
      | post # _ \<Rightarrow> Some (from_db (p_user_id post)))"

section \<open>Tree builder\<close>

text \<open>
  The rows of a query are JavaScript objects, and both builders add a \<open>replies\<close>
  property to them and push objects into each other's arrays. An object is named by its
  position in the list of rows it came from (its address); \<open>heap\<close> gives the
  \<open>replies\<close> array of an object that has one, as the addresses it holds; \<open>index\<close>
  is the object \<open>map\<close>, from comment id to address. The builders read only \<open>id\<close> and
  \<open>parent_id\<close>, so a row may carry further columns (the aggregated \<open>likes\<close>).
\<close>

type_synonym heap = "nat \<rightharpoonup> nat list"

type_synonym index = "int \<rightharpoonup> nat"

text \<open>What \<open>res.json\<close> writes for an object: its columns, and its \<open>replies\<close> when it has
  the property.\<close>

datatype 'r json_comment = JRow 'r | JNode 'r "'r json_comment list"

fun root :: "'r json_comment \<Rightarrow> 'r" where
  "root (JRow r) = r"
| "root (JNode r ks) = r"

fun json_rows :: "'r json_comment \<Rightarrow> 'r list" where
  "json_rows (JRow r) = [r]"
| "json_rows (JNode r ks) = r # concat (map json_rows ks)"

fun depth :: "'r json_comment \<Rightarrow> nat" where
  "depth (JRow r) = 0"
| "depth (JNode r ks) = Suc (foldr max (map depth ks) 0)"

text \<open>\<open>forEach(c => { c.replies = []; map[c.id] = c; })\<close> over the rows at addresses
  \<open>a\<close>, \<open>a + 1\<close>, ...: a later row with the same id takes over the \<open>map\<close> entry.\<close>

fun init_nodes :: "'a comment_scheme list \<Rightarrow> nat \<Rightarrow> heap \<times> index \<Rightarrow> heap \<times> index" where
  "init_nodes [] a (h, m) = (h, m)"
| "init_nodes (c # cs) a (h, m) = init_nodes cs (Suc a) (h(a \<mapsto> []), m(c_id c \<mapsto> a))"

text \<open>\<open>map[c.parent_id]\<close>: a \<open>null\<close> parent id reads the property \<open>null\<close>, which no
  comment id writes.\<close>

definition lookup_parent :: "index \<Rightarrow> int option \<Rightarrow> nat option" where
  "lookup_parent m par = (case par of None \<Rightarrow> None | Some p \<Rightarrow> m p)"

text \<open>\<open>parent.replies.push(child)\<close>; a parent without \<open>replies\<close> would raise a
  \<open>TypeError\<close> (\<open>None\<close>).\<close>

definition push_reply :: "nat \<Rightarrow> nat \<Rightarrow> heap \<Rightarrow> heap option" where
  "push_reply parent child h =
     (case h parent of None \<Rightarrow> None | Some rs \<Rightarrow> Some (h(parent \<mapsto> rs @ [child])))"

text \<open>
  \<open>JSON.stringify\<close> of the object at address \<open>a\<close>, with the addresses of the objects
  being written around it: meeting one of them again is a circular structure, a
  \<open>TypeError\<close> (\<open>None\<close>). An address outside the rows is no object.
\<close>

function to_json :: "'r list \<Rightarrow> heap \<Rightarrow> nat list \<Rightarrow> nat \<Rightarrow> 'r json_comment option" where
  "to_json rows h stack a =
     (if a \<in> set stack \<or> length rows \<le> a then None
      else case h a of
             None \<Rightarrow> Some (JRow (rows ! a))
           | Some rs \<Rightarrow>
               map_option (JNode (rows ! a)) (those (map (to_json rows h (a # stack)) rs)))"
  by pat_completeness auto
termination
proof (relation "measure (\<lambda>(rows, h, stack, a). length rows - card (set stack \<inter> {..<length rows}))")
  show "wf (measure (\<lambda>(rows :: 'r list, h :: heap, stack, a :: nat).
          length rows - card (set stack \<inter> {..<length rows})))"
    by simp
next
  fix rows :: "'r list" and h :: heap and stack :: "nat list" and a :: nat
    and rs :: "nat list" and x :: nat
  assume "\<not> (a \<in> set stack \<or> length rows \<le> a)"
  then have a: "a \<notin> set stack" "a < length rows" by auto
  have sub: "set stack \<inter> {..<length rows} \<subset> set (a # stack) \<inter> {..<length rows}"
    using a by auto
  have "card (set stack \<inter> {..<length rows}) < card (set (a # stack) \<inter> {..<length rows})"
    by (rule psubset_card_mono [OF _ sub]) simp
  moreover have "card (set (a # stack) \<inter> {..<length rows}) \<le> length rows"
    using card_mono [of "{..<length rows}" "set (a # stack) \<inter> {..<length rows}"] by simp
  ultimately show "((rows, h, a # stack, x), (rows, h, stack, a)) \<in>
      measure (\<lambda>(rows, h, stack, a). length rows - card (set stack \<inter> {..<length rows}))"
    by simp
qed

declare to_json.simps [simp del]

subsection \<open>Unlimited nesting\<close>

text \<open>The second \<open>forEach\<close> of \<open>GET /api/comments/unlimited/:postId\<close>: \<open>if (c.parent_id)\<close>
  is a truthiness test, and \<open>?.\<close> skips a parent id that \<open>map\<close> does not hold.\<close>

fun attach_all ::
    "'a comment_scheme list \<Rightarrow> nat \<Rightarrow> index \<Rightarrow> heap \<times> nat list \<Rightarrow> (heap \<times> nat list) option" where
  "attach_all [] a m (h, tree) = Some (h, tree)"
| "attach_all (c # cs) a m (h, tree) =
     (if truthy_int (c_parent_id c) then
        (case lookup_parent m (c_parent_id c) of
           None \<Rightarrow> attach_all cs (Suc a) m (h, tree)
         | Some p \<Rightarrow>
             (case push_reply p a h of
                None \<Rightarrow> None
              | Some h' \<Rightarrow> attach_all cs (Suc a) m (h', tree)))
      else attach_all cs (Suc a) m (h, tree @ [a]))"

definition link_unlimited :: "'a comment_scheme list \<Rightarrow> (heap \<times> nat list) option" where
  "link_unlimited cs =
     (case init_nodes cs 0 (Map.empty, Map.empty) of (h, m) \<Rightarrow> attach_all cs 0 m (h, []))"

definition buildUnlimited ::
    "'a comment_scheme list \<Rightarrow> 'a comment_scheme json_comment list option" where
  "buildUnlimited cs =
     (case link_unlimited cs of
        None \<Rightarrow> None
      | Some (h, tree) \<Rightarrow> those (map (to_json cs h []) tree))"

subsection \<open>One level of nesting\<close>

text \<open>The second \<open>forEach\<close> of \<open>GET /api/comments/:postId\<close>, over the reply rows, which
  sit behind the top-level rows: \<open>if (map[r.parent_id])\<close>.\<close>

fun attach_replies :: "'a comment_scheme list \<Rightarrow> nat \<Rightarrow> index \<Rightarrow> heap \<Rightarrow> heap option" where
  "attach_replies [] a m h = Some h"
| "attach_replies (r # rs) a m h =
     (case lookup_parent m (c_parent_id r) of
        None \<Rightarrow> attach_replies rs (Suc a) m h
      | Some p \<Rightarrow>
          (case push_reply p a h of
             None \<Rightarrow> None
           | Some h' \<Rightarrow> attach_replies rs (Suc a) m h'))"

definition link_one_level ::
    "'a comment_scheme list \<Rightarrow> 'a comment_scheme list \<Rightarrow> heap option" where
  "link_one_level topLevelComments replies =
     (case init_nodes topLevelComments 0 (Map.empty, Map.empty) of
        (h, m) \<Rightarrow> attach_replies replies (length topLevelComments) m h)"

definition buildOneLevel ::
    "'a comment_scheme list \<Rightarrow> 'a comment_scheme list
      \<Rightarrow> 'a comment_scheme json_comment list option" where
  "buildOneLevel topLevelComments replies =
     (case link_one_level topLevelComments replies of
        None \<Rightarrow> None
      | Some h \<Rightarrow>
          those (map (to_json (topLevelComments @ replies) h [])
                   [0..<length topLevelComments]))"

subsection \<open>What the builders are measured against\<close>

text \<open>The addresses, from \<open>a\<close> on, of the rows that satisfy \<open>P\<close>.\<close>

fun addrs_where :: "('r \<Rightarrow> bool) \<Rightarrow> 'r list \<Rightarrow> nat \<Rightarrow> nat list" where
  "addrs_where P [] a = []"
| "addrs_where P (c # cs) a =
     (if P c then a # addrs_where P cs (Suc a) else addrs_where P cs (Suc a))"

text \<open>The rows of one query result: ids are distinct (primary key), and no parent id is
  \<open>0\<close> (ids are serial, from 1 on, and \<open>parent_id || null\<close> stores no \<open>0\<close>).\<close>

definition valid_rows :: "'a comment_scheme list \<Rightarrow> bool" where
  "valid_rows cs \<longleftrightarrow> distinct (map c_id cs) \<and> (\<forall>c \<in> set cs. c_parent_id c \<noteq> Some 0)"

text \<open>The objects on the way up from the object at \<open>a\<close>: its parent, the parent's
  parent, and so on to a comment without parent.\<close>

fun chain :: "'a comment_scheme list \<Rightarrow> nat \<Rightarrow> nat list \<Rightarrow> bool" where
  "chain cs a [] \<longleftrightarrow> c_parent_id (cs ! a) = None"
| "chain cs a (p # st) \<longleftrightarrow>
     p < length cs \<and> c_parent_id (cs ! a) = Some (c_id (cs ! p)) \<and> chain cs p st"

text \<open>A node of the forest over \<open>cs\<close>: a comment of \<open>cs\<close> with a \<open>replies\<close> array that
  holds, in the order of \<open>cs\<close>, exactly the comments naming it as parent, each again
  such a node.\<close>

fun forest_node :: "'a comment_scheme list \<Rightarrow> 'a comment_scheme json_comment \<Rightarrow> bool" where
  "forest_node cs (JRow c) = False"
| "forest_node cs (JNode c ks) \<longleftrightarrow>
     c \<in> set cs \<and>
     map root ks = filter (\<lambda>d. c_parent_id d = Some (c_id c)) cs \<and>
     (\<forall>k \<in> set ks. forest_node cs k)"

text \<open>The one-level view in the words of its contract: the top-level comments in
  their order, each with the replies naming it as parent, in the order of the replies, and
  the replies themselves with no \<open>replies\<close> of their own.\<close>

definition oneLevelSpec ::
    "'a comment_scheme list \<Rightarrow> 'a comment_scheme list \<Rightarrow> 'a comment_scheme json_comment list" where
  "oneLevelSpec topLevel replies =
     map (\<lambda>c. JNode c (map JRow (filter (\<lambda>r. c_parent_id r = Some (c_id c)) replies))) topLevel"

text \<open>The \<open>replies\<close> arrays the unlimited builder is meant to leave behind: for the
  object at \<open>p\<close>, the addresses of the comments naming it as parent, in input order.\<close>

definition thread_heap :: "'a comment_scheme list \<Rightarrow> heap" where
  "thread_heap cs =
     (\<lambda>p. if p < length cs
          then Some (addrs_where (\<lambda>c. c_parent_id c = Some (c_id (cs ! p))) cs 0)
          else None)"

section \<open>Deleting a comment and its replies\<close>

text \<open>
  The statement of \<open>DELETE /api/comments/:id\<close> is
  \<open>WITH RECURSIVE to_delete AS (SELECT id FROM comments WHERE id = $1 UNION ALL
  SELECT c.id FROM comments c INNER JOIN to_delete td ON c.parent_id = td.id)
  DELETE FROM comments WHERE id IN (SELECT id FROM to_delete)\<close>.
  PostgreSQL evaluates the recursive query with a working table: the first \<open>SELECT\<close>
  fills it, and as long as it is not empty the second \<open>SELECT\<close>, joined with it, gives
  the next one; \<open>UNION ALL\<close> keeps every row. On a cycle of parent ids the working table
  never empties and the statement does not return (\<open>None\<close>).
\<close>

text \<open>One round of the recursive term: the ids of the comments whose parent is in the
  working table.\<close>

definition cte_step :: "comment list \<Rightarrow> int list \<Rightarrow> int list" where
  "cte_step cs work = [c_id c. c \<leftarrow> cs, td \<leftarrow> work, c_parent_id c = Some td]"

partial_function (option) cte_loop :: "comment list \<Rightarrow> int list \<Rightarrow> int list \<Rightarrow> int list option" where
  "cte_loop cs work acc =
     (if work = [] then Some acc
      else cte_loop cs (cte_step cs work) (acc @ cte_step cs work))"

definition to_delete :: "int \<Rightarrow> comment list \<Rightarrow> int list option" where
  "to_delete rid cs = (let start = [c_id c. c \<leftarrow> cs, c_id c = rid] in cte_loop cs start start)"

text \<open>\<open>ON DELETE CASCADE\<close> on \<open>comments.parent_id\<close>: rows that name a deleted row as
  parent are deleted in turn, until none is left.\<close>

function fk_cascade :: "int list \<Rightarrow> comment list \<Rightarrow> comment list" where
  "fk_cascade dead cs =
     (let victims = filter (\<lambda>c. c_parent_id c \<in> Some ` set dead) cs
      in if victims = [] then cs
         else fk_cascade (map c_id victims)
                (filter (\<lambda>c. c_parent_id c \<notin> Some ` set dead) cs))"
  by pat_completeness auto
termination
proof (relation "measure (\<lambda>(dead, cs). length cs)")
  show "wf (measure (\<lambda>(dead :: int list, cs :: comment list). length cs))" by simp
next
  fix dead :: "int list" and cs victims :: "comment list"
  assume v: "victims = filter (\<lambda>c. c_parent_id c \<in> Some ` set dead) cs" and "victims \<noteq> []"
  then obtain c where "c \<in> set cs" "c_parent_id c \<in> Some ` set dead"
    by (auto simp: filter_empty_conv)
  then have "length (filter (\<lambda>c. c_parent_id c \<notin> Some ` set dead) cs) < length cs"
    by (intro length_filter_less [of c]) auto
  then show "((map c_id victims, filter (\<lambda>c. c_parent_id c \<notin> Some ` set dead) cs), (dead, cs))
      \<in> measure (\<lambda>(dead, cs). length cs)"
    by simp
qed

declare fk_cascade.simps [simp del]

text \<open>The route: the \<open>DELETE\<close> with its cascades on \<open>comments\<close> and on
  \<open>comment_likes.comment_id\<close>, then \<open>res.sendStatus(204)\<close>.\<close>

definition deleteComment :: "int \<Rightarrow> db \<Rightarrow> (db \<times> unit response) option" where
  "deleteComment rid s =
     (case to_delete rid (comments s) of
        None \<Rightarrow> None
      | Some ids \<Rightarrow>
          (let cs = fk_cascade ids (filter (\<lambda>c. c_id c \<notin> set ids) (comments s));
               gone = filter (\<lambda>i. i \<notin> c_id ` set cs) (map c_id (comments s))
           in Some (s\<lparr>comments := cs,
                      comment_likes := filter (\<lambda>l. cl_comment_id l \<notin> set gone) (comment_likes s)\<rparr>,
                    SendStatus 204)))"

text \<open>The ids of the comment \<open>rid\<close>, when there is one, and of every comment reachable
  from it through \<open>parent_id\<close>.\<close>

text \<open>A comments table in which every reply was created after the comment it names:
  ids are distinct (primary key) and grow with each insert (serial), so a parent id is
  smaller than the id of the row that carries it.\<close>

definition well_formed :: "comment list \<Rightarrow> bool" where
  "well_formed cs \<longleftrightarrow>
     distinct (map c_id cs) \<and>
     (\<forall>c \<in> set cs. case c_parent_id c of None \<Rightarrow> True | Some p \<Rightarrow> p < c_id c)"

inductive_set subtree :: "comment list \<Rightarrow> int \<Rightarrow> int set" for cs :: "comment list" and rid :: int where
  root: "c \<in> set cs \<Longrightarrow> c_id c = rid \<Longrightarrow> c_id c \<in> subtree cs rid"
| reply: "p \<in> subtree cs rid \<Longrightarrow> c \<in> set cs \<Longrightarrow> c_parent_id c = Some p \<Longrightarrow> c_id c \<in> subtree cs rid"

text \<open>The same from a set of starting ids, as the working table sees it.\<close>

inductive_set closure :: "comment list \<Rightarrow> int set \<Rightarrow> int set" for cs :: "comment list" and W :: "int set" where
  start: "w \<in> W \<Longrightarrow> w \<in> closure cs W"
| child: "p \<in> closure cs W \<Longrightarrow> c \<in> set cs \<Longrightarrow> c_parent_id c = Some p \<Longrightarrow> c_id c \<in> closure cs W"

section \<open>Invariants of the store\<close>

text \<open>What every route keeps true of the comments table: ids are distinct and were drawn
  from the sequence, and no stored parent id is \<open>0\<close>.\<close>

definition db_ok :: "db \<Rightarrow> bool" where
  "db_ok s \<longleftrightarrow>
     distinct (map c_id (comments s)) \<and>
     (\<forall>c \<in> set (comments s). c_id c \<le> comments_id_seq s \<and> c_parent_id c \<noteq> Some 0)"

section \<open>Example data\<close>

definition example_post :: post where
  "example_post = \<lparr>p_id = 1, p_title = ''t'', p_content = ''c'', p_created_at = 0,
     p_category = None, p_tags = None,
     p_likes = Some [Some ''a'', Some ''b'', Some ''a''], p_user_id = Some ''u1''\<rparr>"

definition example_comment :: comment where
  "example_comment = \<lparr>c_id = 1, c_postid = Some 1, c_userid = Some ''u2'', c_content = ''hi'',
     c_parent_id = None, c_createdat = 1\<rparr>"

definition example_db :: db where
  "example_db = \<lparr>posts = [example_post], comments = [example_comment], comments_id_seq = 1,
     comment_likes = [\<lparr>cl_comment_id = 1, cl_userid = Some ''b''\<rparr>], notifications = []\<rparr>"

definition anon_post :: post where
  "anon_post = \<lparr>p_id = 2, p_title = ''t2'', p_content = ''c2'', p_created_at = 2,
     p_category = None, p_tags = None, p_likes = Some [], p_user_id = None\<rparr>"

definition blank_comment :: comment where
  "blank_comment = \<lparr>c_id = 2, c_postid = Some 1, c_userid = Some '''', c_content = ''yo'',
     c_parent_id = None, c_createdat = 3\<rparr>"

definition example_db2 :: db where
  "example_db2 = \<lparr>posts = [example_post, anon_post], comments = [example_comment, blank_comment],
     comments_id_seq = 2, comment_likes = [], notifications = []\<rparr>"

definition sample_comment :: "int \<Rightarrow> int option \<Rightarrow> comment" where
  "sample_comment i par = \<lparr>c_id = i, c_postid = Some 1, c_userid = Some ''u'', c_content = ''x'',
     c_parent_id = par, c_createdat = nat i\<rparr>"

definition thread :: "comment list" where
  "thread = [sample_comment 1 None, sample_comment 2 (Some 1), sample_comment 5 (Some 4),
     sample_comment 6 (Some 2), sample_comment 7 None, sample_comment 8 (Some 1)]"

definition page :: "comment list" where
  "page = [sample_comment 1 None, sample_comment 7 None]"

definition page_replies :: "comment list" where
  "page_replies = [sample_comment 2 (Some 1), sample_comment 6 (Some 2), sample_comment 8 (Some 1)]"



text \<open>A reply that names the id it is about to receive as its parent.\<close>

definition self_reply :: comment where
  "self_reply = \<lparr>c_id = 2, c_postid = Some 1, c_userid = Some ''u3'', c_content = ''x'',
     c_parent_id = Some 2, c_createdat = 9\<rparr>"

section \<open>Helper facts\<close>

subsection \<open>Stored values and the like toggles\<close>

lemma to_db_from_db [simp]: "to_db (from_db x) = x"
  by (cases x) simp_all

lemma to_db_comp_from_db [simp]: "to_db \<circ> from_db = id"
  by (rule ext) simp


lemma from_db_eq_JString [simp]: "from_db x = JString u \<longleftrightarrow> x = Some u"
  by (cases x) auto

lemma JString_eq_from_db [simp]: "JString u = from_db x \<longleftrightarrow> x = Some u"
  by (cases x) auto

lemma JString_in_from_db [simp]: "JString u \<in> from_db ` A \<longleftrightarrow> Some u \<in> A"
  by (auto simp: image_iff)

lemma filter_update_likes:
  "filter (\<lambda>p. p_id p = pid) (update_likes pid likes ps) =
     map (\<lambda>p. p\<lparr>p_likes := Some (map to_db likes)\<rparr>) (filter (\<lambda>p. p_id p = pid) ps)"
  by (induction ps) (simp_all add: update_likes_def)


lemma filter_update_likes_frame:
  "filter (\<lambda>p. p_id p \<noteq> pid) (update_likes pid likes ps) = filter (\<lambda>p. p_id p \<noteq> pid) ps"
  by (induction ps) (simp_all add: update_likes_def)

lemma map_p_id_update_likes: "map p_id (update_likes pid likes ps) = map p_id ps"
  by (induction ps) (simp_all add: update_likes_def)

lemma stored_likes_toggle:
  assumes "filter (\<lambda>p. p_id p = pid) (posts s) = p # rest"
  shows "stored_likes pid (fst (togglePostLike pid userId s)) =
           map to_db (toggleLikes (likes_or_empty p) userId)"
  using assms by (simp add: stored_likes_def togglePostLike_def Let_def filter_update_likes)

lemma map_to_db_filter_JString:
  "map to_db (filter (\<lambda>uid. uid \<noteq> JString u) (map from_db a)) = filter (\<lambda>x. x \<noteq> Some u) a"
  by (induction a) simp_all

lemma filter_p_id_nonempty:
  "pid \<in> p_id ` set ps \<Longrightarrow> \<exists>p rest. filter (\<lambda>p. p_id p = pid) ps = p # rest"
  by (cases "filter (\<lambda>p. p_id p = pid) ps") (auto simp: filter_empty_conv)

lemma stored_likes_toggle_JString:
  assumes "pid \<in> p_id ` set (posts s)"
  shows "stored_likes pid (fst (togglePostLike pid (JString u) s)) =
           (if Some u \<in> set (stored_likes pid s)
            then filter (\<lambda>x. x \<noteq> Some u) (stored_likes pid s)
            else stored_likes pid s @ [Some u])"
proof -
  obtain p rest where pr: "filter (\<lambda>p. p_id p = pid) (posts s) = p # rest"
    using filter_p_id_nonempty [OF assms] by blast
  let ?L = "likes_or_empty p"
  have old: "stored_likes pid s = map to_db ?L"
    using pr by (simp add: stored_likes_def likes_or_empty_def split: option.splits)
  have mem: "JString u \<in> set ?L \<longleftrightarrow> Some u \<in> set (stored_likes pid s)"
    using pr by (simp add: stored_likes_def likes_or_empty_def split: option.splits)
  have flt: "map to_db (filter (\<lambda>uid. uid \<noteq> JString u) ?L) =
               filter (\<lambda>x. x \<noteq> Some u) (stored_likes pid s)"
    using pr
    by (simp add: stored_likes_def likes_or_empty_def map_to_db_filter_JString
        split: option.splits)
  have new: "stored_likes pid (fst (togglePostLike pid (JString u) s)) =
               map to_db (toggleLikes ?L (JString u))"
    by (rule stored_likes_toggle [OF pr])
  show ?thesis
    unfolding new using mem flt old by (simp add: toggleLikes_def)
qed

lemma posts_togglePostLike:
  "posts (fst (togglePostLike pid userId s)) = posts s \<or>
   (\<exists>likes. posts (fst (togglePostLike pid userId s)) = update_likes pid likes (posts s))"
  by (cases "filter (\<lambda>p. p_id p = pid) (posts s)") (auto simp: togglePostLike_def Let_def)

lemma post_ids_togglePostLike:
  "map p_id (posts (fst (togglePostLike pid userId s))) = map p_id (posts s)"
  using posts_togglePostLike [of pid userId s] by (auto simp: map_p_id_update_likes)

lemma post_frame_togglePostLike:
  "filter (\<lambda>p. p_id p \<noteq> pid) (posts (fst (togglePostLike pid userId s))) =
     filter (\<lambda>p. p_id p \<noteq> pid) (posts s)"
  using posts_togglePostLike [of pid userId s] by (auto simp: filter_update_likes_frame)

lemma other_tables_togglePostLike:
  "comments (fst (togglePostLike pid userId s)) = comments s \<and>
   comment_likes (fst (togglePostLike pid userId s)) = comment_likes s \<and>
   notifications (fst (togglePostLike pid userId s)) = notifications s \<and>
   comments_id_seq (fst (togglePostLike pid userId s)) = comments_id_seq s"
  by (cases "filter (\<lambda>p. p_id p = pid) (posts s)") (simp_all add: togglePostLike_def Let_def)

lemma post_members_toggle:
  assumes "pid \<in> p_id ` set (posts s)"
  shows "post_members pid (fst (togglePostLike pid (JString u) s)) =
           (if Some u \<in> post_members pid s then post_members pid s - {Some u}
            else insert (Some u) (post_members pid s))"
  unfolding post_members_def stored_likes_toggle_JString [OF assms] by auto

lemma post_exists_after_toggle:
  assumes "pid \<in> p_id ` set (posts s)"
  shows "pid \<in> p_id ` set (posts (fst (togglePostLike pid userId s)))"
proof -
  have "set (map p_id (posts (fst (togglePostLike pid userId s)))) = set (map p_id (posts s))"
    by (simp only: post_ids_togglePostLike)
  then show ?thesis using assms by simp
qed

lemma like_matches_Some:
  "like_matches cid (Some u) l \<longleftrightarrow> cl_comment_id l = cid \<and> cl_userid l = Some u"
  by (auto simp: like_matches_def)

lemma member_iff_match:
  "Some u \<in> comment_members cid s \<longleftrightarrow> filter (like_matches cid (Some u)) (comment_likes s) \<noteq> []"
  by (auto simp: comment_members_def like_matches_Some filter_empty_conv image_iff)

lemma comments_toggleCommentLike:
  "comments (fst (toggleCommentLike cid userId s)) = comments s"
  by (auto simp: toggleCommentLike_def insert_comment_like_def Let_def split: sum.splits)

lemma comment_members_toggle:
  assumes "cid \<in> c_id ` set (comments s)"
  shows "comment_members cid (fst (toggleCommentLike cid (JString u) s)) =
           (if Some u \<in> comment_members cid s then comment_members cid s - {Some u}
            else insert (Some u) (comment_members cid s))"
proof (cases "Some u \<in> comment_members cid s")
  case True
  then have ex: "filter (like_matches cid (Some u)) (comment_likes s) \<noteq> []"
    by (simp add: member_iff_match)
  have "comment_likes (fst (toggleCommentLike cid (JString u) s)) =
          filter (\<lambda>l. \<not> like_matches cid (Some u) l) (comment_likes s)"
    using ex by (simp add: toggleCommentLike_def Let_def)
  then show ?thesis
    using True by (auto simp: comment_members_def like_matches_Some image_iff)
next
  case False
  then have ex: "filter (like_matches cid (Some u)) (comment_likes s) = []"
    by (simp add: member_iff_match)
  then have "\<not> (\<exists>l \<in> set (comment_likes s). like_matches cid (Some u) l)"
    by (simp add: filter_empty_conv)
  then have "comment_likes (fst (toggleCommentLike cid (JString u) s)) =
          comment_likes s @ [\<lparr>cl_comment_id = cid, cl_userid = Some u\<rparr>]"
    using ex assms by (simp add: toggleCommentLike_def insert_comment_like_def Let_def)
  then have "{l \<in> set (comment_likes (fst (toggleCommentLike cid (JString u) s))).
               cl_comment_id l = cid} =
             insert \<lparr>cl_comment_id = cid, cl_userid = Some u\<rparr>
               {l \<in> set (comment_likes s). cl_comment_id l = cid}"
    by auto
  then show ?thesis
    using False by (simp add: comment_members_def)
qed

subsection \<open>Parsing of the pagination parameters\<close>






subsection \<open>Notification derivation and comment creation\<close>

lemma notification_for_reply:
  assumes "truthy_int par"
  shows "notification_for par uid pid s =
           (case parent_author par s of
              None \<Rightarrow> None
            | Some a \<Rightarrow> if a = uid \<or> \<not> truthy a then None else Some (a, ''reply''))"
  using assms
  by (cases "filter (\<lambda>c. Some (c_id c) = par) (comments s)")
    (simp_all add: notification_for_def deriveRecipient_def parent_author_def)

lemma notification_for_top_level:
  assumes "\<not> truthy_int par"
  shows "notification_for par uid pid s =
           (case post_author pid s of
              None \<Rightarrow> None
            | Some a \<Rightarrow> if a = uid \<or> \<not> truthy a then None else Some (a, ''comment''))"
  using assms
  by (cases "filter (\<lambda>p. Some (p_id p) = pid) (posts s)")
    (simp_all add: notification_for_def deriveRecipient_def post_author_def)

lemma falsy_from_db: "\<not> truthy (from_db x) \<longleftrightarrow> x = None \<or> x = Some ''''"
  by (cases x) auto

lemma parent_author_SomeD: "parent_author par s = Some a \<Longrightarrow> \<exists>x. a = from_db x"
  by (cases "filter (\<lambda>c. Some (c_id c) = par) (comments s)") (auto simp: parent_author_def)

lemma post_author_SomeD: "post_author pid s = Some a \<Longrightarrow> \<exists>x. a = from_db x"
  by (cases "filter (\<lambda>p. Some (p_id p) = pid) (posts s)") (auto simp: post_author_def)

lemma insert_comment_InrD:
  assumes "insert_comment pid uid text par now s = (s1, Inr c)"
  shows "comments s1 = comments s @ [c]" and "notifications s1 = notifications s"
    and "posts s1 = posts s" and "comment_likes s1 = comment_likes s"
    and "c_id c = comments_id_seq s + 1" and "c_parent_id c = par" and "c_userid c = uid"
    and "c_postid c = pid"
  using assms
  by (auto simp: insert_comment_def Let_def split: option.splits if_splits)

lemma createComment_after_insert:
  assumes "insert_comment (postid body) (to_db (userid body)) (content body)
             (or_null (parent_id body)) now s = (s1, Inr c)"
  shows "createComment body now s =
           (case notification_for (parent_id body) (userid body) (postid body) s1 of
              None \<Rightarrow> (s1, Json c)
            | Some (a, t) \<Rightarrow>
                (case insert_notification (to_db a) t (postid body) (c_id c) s1 of
                   Inl e \<Rightarrow> (s1, Rejected e)
                 | Inr s2 \<Rightarrow> (s2, Json c)))"
  using assms by (simp add: createComment_def)


lemma createComment_notifications:
  assumes "insert_comment (postid body) (to_db (userid body)) (content body)
             (or_null (parent_id body)) now s = (s1, Inr c)"
  shows "notifications (fst (createComment body now s)) =
           (case notification_for (parent_id body) (userid body) (postid body) s1 of
              None \<Rightarrow> notifications s
            | Some (a, t) \<Rightarrow>
                (case (to_db a, postid body) of
                   (Some u, Some p) \<Rightarrow> notifications s @
                     [\<lparr>n_user_id = u, n_type = t, n_post_id = p, n_comment_id = c_id c\<rparr>]
                 | _ \<Rightarrow> notifications s))"
  using insert_comment_InrD(2) [OF assms]
  by (auto simp: createComment_after_insert [OF assms] insert_notification_def
      split: option.splits prod.splits)

lemma createComment_comments:
  assumes "insert_comment (postid body) (to_db (userid body)) (content body)
             (or_null (parent_id body)) now s = (s1, Inr c)"
  shows "comments (fst (createComment body now s)) = comments s @ [c]"
  using insert_comment_InrD(1) [OF assms]
  by (auto simp: createComment_after_insert [OF assms] insert_notification_def
      split: option.splits prod.splits)

lemma notification_for_to_db:
  "notification_for par uid pid s = Some (a, t) \<Longrightarrow> to_db a \<noteq> None"
  by (cases a) (auto simp: notification_for_def split: prod.splits if_splits)

lemma createComment_response:
  assumes "insert_comment (postid body) (to_db (userid body)) (content body)
             (or_null (parent_id body)) now s = (s1, Inr c)"
  shows "snd (createComment body now s) =
           (if notification_for (parent_id body) (userid body) (postid body) s1 \<noteq> None
               \<and> postid body = None
            then Rejected NotNullViolation else Json c)"
  by (auto simp: createComment_after_insert [OF assms] insert_notification_def
      split: option.splits prod.splits dest: notification_for_to_db)

subsection \<open>The object graph of the tree builders\<close>

lemma addrs_where_nth:
  "map ((!) (pre @ cs)) (addrs_where P cs (length pre)) = filter P cs"
proof (induction cs arbitrary: pre)
  case Nil
  then show ?case by simp
next
  case (Cons c cs)
  from Cons.IH [of "pre @ [c]"] show ?case by simp
qed

lemma addrs_where_nth0: "map ((!) cs) (addrs_where P cs 0) = filter P cs"
  using addrs_where_nth [of "[]" cs P] by simp

lemma addrs_where_range:
  "x \<in> set (addrs_where P cs a) \<Longrightarrow> a \<le> x \<and> x < a + length cs"
  by (induction cs arbitrary: a) (fastforce split: if_splits)+

lemma addrs_where_holds:
  "x \<in> set (addrs_where P cs (length pre)) \<Longrightarrow> P ((pre @ cs) ! x)"
proof (induction cs arbitrary: pre)
  case Nil
  then show ?case by simp
next
  case (Cons c cs)
  show ?case
  proof (cases "x = length pre")
    case True
    with Cons.prems show ?thesis
      by (auto split: if_splits dest: addrs_where_range)
  next
    case False
    with Cons.prems have "x \<in> set (addrs_where P cs (length (pre @ [c])))"
      by (auto split: if_splits)
    from Cons.IH [OF this] show ?thesis by simp
  qed
qed

lemma addrs_where_holds0: "x \<in> set (addrs_where P cs 0) \<Longrightarrow> P (cs ! x)"
  using addrs_where_holds [of x P cs "[]"] by simp

lemma init_nodes_heap:
  "fst (init_nodes cs a (h, m)) = (\<lambda>x. if a \<le> x \<and> x < a + length cs then Some [] else h x)"
  by (induction cs arbitrary: a h m) (auto simp: fun_eq_iff)

lemma init_nodes_index_other:
  "k \<notin> c_id ` set cs \<Longrightarrow> snd (init_nodes cs a (h, m)) k = m k"
  by (induction cs arbitrary: a h m) auto

lemma init_nodes_index_nth:
  "distinct (map c_id cs) \<Longrightarrow> i < length cs \<Longrightarrow>
     snd (init_nodes cs a (h, m)) (c_id (cs ! i)) = Some (a + i)"
proof (induction cs arbitrary: a h m i)
  case Nil
  then show ?case by simp
next
  case (Cons c cs)
  show ?case
  proof (cases i)
    case 0
    with Cons.prems show ?thesis by (simp add: init_nodes_index_other)
  next
    case (Suc j)
    with Cons.prems Cons.IH [of j "Suc a"] show ?thesis by simp
  qed
qed

lemma init_nodes_index_range:
  "snd (init_nodes cs a (h, m)) k = Some x \<Longrightarrow> (a \<le> x \<and> x < a + length cs) \<or> m k = Some x"
proof (induction cs arbitrary: a h m)
  case Nil
  then show ?case by simp
next
  case (Cons c cs)
  have "snd (init_nodes cs (Suc a) (h(a \<mapsto> []), m(c_id c \<mapsto> a))) k = Some x"
    using Cons.prems by simp
  from Cons.IH [OF this] show ?case by (auto split: if_splits)
qed

lemma attach_all_result:
  assumes "\<forall>k p. m k = Some p \<longrightarrow> h p \<noteq> None"
  shows "attach_all cs a m (h, tree) =
           Some (\<lambda>p. map_option (\<lambda>rs. rs @ addrs_where
                    (\<lambda>c. truthy_int (c_parent_id c) \<and> lookup_parent m (c_parent_id c) = Some p) cs a)
                  (h p),
                 tree @ addrs_where (\<lambda>c. \<not> truthy_int (c_parent_id c)) cs a)"
  using assms
proof (induction cs arbitrary: a h tree)
  case Nil
  then show ?case by (simp add: fun_eq_iff option.map_ident)
next
  case (Cons c cs)
  show ?case
  proof (cases "truthy_int (c_parent_id c)")
    case False
    with Cons.IH [of h "Suc a" "tree @ [a]"] Cons.prems show ?thesis by simp
  next
    case True
    show ?thesis
    proof (cases "lookup_parent m (c_parent_id c)")
      case None
      with True Cons.IH [of h "Suc a" tree] Cons.prems show ?thesis by simp
    next
      case (Some p)
      then obtain k where "m k = Some p"
        by (auto simp: lookup_parent_def split: option.splits)
      with Cons.prems obtain rs where rs: "h p = Some rs" by fastforce
      let ?h' = "h(p \<mapsto> rs @ [a])"
      have "\<forall>k q. m k = Some q \<longrightarrow> ?h' q \<noteq> None"
        using Cons.prems by auto
      from Cons.IH [of ?h' "Suc a" tree, OF this]
      have step: "attach_all cs (Suc a) m (?h', tree) =
           Some (\<lambda>q. map_option (\<lambda>rs. rs @ addrs_where
                    (\<lambda>c. truthy_int (c_parent_id c) \<and> lookup_parent m (c_parent_id c) = Some q)
                    cs (Suc a)) (?h' q),
                 tree @ addrs_where (\<lambda>c. \<not> truthy_int (c_parent_id c)) cs (Suc a))" .
      have eq: "(\<lambda>q. map_option (\<lambda>rs. rs @ addrs_where
                    (\<lambda>c. truthy_int (c_parent_id c) \<and> lookup_parent m (c_parent_id c) = Some q)
                    cs (Suc a)) (?h' q)) =
                (\<lambda>q. map_option (\<lambda>rs. rs @ addrs_where
                    (\<lambda>c. truthy_int (c_parent_id c) \<and> lookup_parent m (c_parent_id c) = Some q)
                    (c # cs) a) (h q))"
        using True Some rs by (intro ext) auto
      have "attach_all (c # cs) a m (h, tree) = attach_all cs (Suc a) m (?h', tree)"
        using True Some rs by (simp add: push_reply_def)
      with step eq True show ?thesis by simp
    qed
  qed
qed

lemma attach_replies_result:
  assumes "\<forall>k p. m k = Some p \<longrightarrow> h p \<noteq> None"
  shows "attach_replies rs a m h =
           Some (\<lambda>p. map_option (\<lambda>xs. xs @ addrs_where
                    (\<lambda>r. lookup_parent m (c_parent_id r) = Some p) rs a)
                  (h p))"
  using assms
proof (induction rs arbitrary: a h)
  case Nil
  then show ?case by (simp add: fun_eq_iff option.map_ident)
next
  case (Cons r rs)
  show ?case
  proof (cases "lookup_parent m (c_parent_id r)")
    case None
    with Cons.IH [of h "Suc a"] Cons.prems show ?thesis by simp
  next
    case (Some p)
    then obtain k where "m k = Some p"
      by (auto simp: lookup_parent_def split: option.splits)
    with Cons.prems obtain xs where xs: "h p = Some xs" by fastforce
    let ?h' = "h(p \<mapsto> xs @ [a])"
    have "\<forall>k q. m k = Some q \<longrightarrow> ?h' q \<noteq> None"
      using Cons.prems by auto
    from Cons.IH [of ?h' "Suc a", OF this]
    have step: "attach_replies rs (Suc a) m ?h' =
           Some (\<lambda>q. map_option (\<lambda>xs. xs @ addrs_where
                    (\<lambda>r. lookup_parent m (c_parent_id r) = Some q) rs (Suc a)) (?h' q))" .
    have eq: "(\<lambda>q. map_option (\<lambda>xs. xs @ addrs_where
                    (\<lambda>r. lookup_parent m (c_parent_id r) = Some q) rs (Suc a)) (?h' q)) =
              (\<lambda>q. map_option (\<lambda>xs. xs @ addrs_where
                    (\<lambda>r. lookup_parent m (c_parent_id r) = Some q) (r # rs) a) (h q))"
      using Some xs by (intro ext) auto
    have "attach_replies (r # rs) a m h = attach_replies rs (Suc a) m ?h'"
      using Some xs by (simp add: push_reply_def)
    with step eq show ?thesis by simp
  qed
qed

lemma those_map_Some:
  "(\<And>x. x \<in> set xs \<Longrightarrow> f x = Some (g x)) \<Longrightarrow> those (map f xs) = Some (map g xs)"
  by (induction xs) simp_all

lemma init_index_iff:
  assumes "distinct (map c_id cs)" and "i < length cs"
  shows "snd (init_nodes cs 0 (Map.empty, Map.empty)) k = Some i \<longleftrightarrow> k = c_id (cs ! i)"
proof
  assume m: "snd (init_nodes cs 0 (Map.empty, Map.empty)) k = Some i"
  show "k = c_id (cs ! i)"
  proof (cases "k \<in> c_id ` set cs")
    case False
    from init_nodes_index_other [OF this, of 0 Map.empty Map.empty] m show ?thesis by simp
  next
    case True
    then obtain j where j: "j < length cs" "k = c_id (cs ! j)"
      by (auto simp: in_set_conv_nth)
    from init_nodes_index_nth [OF assms(1) j(1), of 0 Map.empty Map.empty] m j
    show ?thesis by simp
  qed
next
  assume "k = c_id (cs ! i)"
  with init_nodes_index_nth [OF assms, of 0 Map.empty Map.empty]
  show "snd (init_nodes cs 0 (Map.empty, Map.empty)) k = Some i" by simp
qed

lemma init_index_bound:
  "snd (init_nodes cs 0 (Map.empty, Map.empty)) k = Some p \<Longrightarrow> p < length cs"
  using init_nodes_index_range [of cs 0 Map.empty Map.empty k p] by simp

lemma init_heap0:
  "fst (init_nodes cs 0 (Map.empty, Map.empty)) = (\<lambda>x. if x < length cs then Some [] else None)"
  by (simp add: init_nodes_heap)

lemma lookup_parent_init_iff:
  assumes "distinct (map c_id cs)" and "i < length cs"
  shows "lookup_parent (snd (init_nodes cs 0 (Map.empty, Map.empty))) par = Some i
           \<longleftrightarrow> par = Some (c_id (cs ! i))"
  using init_index_iff [OF assms] by (cases par) (auto simp: lookup_parent_def)

lemma link_one_level_heap:
  assumes "distinct (map c_id tops)"
  shows "link_one_level tops rs =
           Some (\<lambda>p. if p < length tops
                      then Some (addrs_where (\<lambda>r. c_parent_id r = Some (c_id (tops ! p))) rs (length tops))
                      else None)"
proof -
  let ?h0 = "fst (init_nodes tops 0 (Map.empty, Map.empty))"
  let ?m = "snd (init_nodes tops 0 (Map.empty, Map.empty))"
  have pre: "\<forall>k p. ?m k = Some p \<longrightarrow> ?h0 p \<noteq> None"
    by (auto simp: init_heap0 dest: init_index_bound)
  have "link_one_level tops rs = attach_replies rs (length tops) ?m ?h0"
    by (simp add: link_one_level_def split: prod.splits)
  also have "\<dots> = Some (\<lambda>p. map_option (\<lambda>xs. xs @ addrs_where
                    (\<lambda>r. lookup_parent ?m (c_parent_id r) = Some p) rs (length tops)) (?h0 p))"
    by (rule attach_replies_result [OF pre])
  also have "(\<lambda>p. map_option (\<lambda>xs. xs @ addrs_where
                    (\<lambda>r. lookup_parent ?m (c_parent_id r) = Some p) rs (length tops)) (?h0 p)) =
             (\<lambda>p. if p < length tops
                      then Some (addrs_where (\<lambda>r. c_parent_id r = Some (c_id (tops ! p))) rs (length tops))
                      else None)"
    by (intro ext) (simp add: init_heap0 lookup_parent_init_iff [OF assms])
  finally show ?thesis .
qed

lemma map_nth_fun: "map (\<lambda>i. f (xs ! i)) [0..<length xs] = map f xs"
proof -
  have "map (\<lambda>i. f (xs ! i)) [0..<length xs] = map f (map ((!) xs) [0..<length xs])"
    by (simp add: comp_def)
  then show ?thesis by (simp only: map_nth)
qed

lemma buildOneLevel_eq:
  assumes "distinct (map c_id tops)"
  shows "buildOneLevel tops rs = Some (oneLevelSpec tops rs)"
proof -
  let ?h = "\<lambda>p. if p < length tops
                 then Some (addrs_where (\<lambda>r. c_parent_id r = Some (c_id (tops ! p))) rs (length tops))
                 else None"
  have reply: "to_json (tops @ rs) ?h [i] x = Some (JRow ((tops @ rs) ! x))"
    if "i < length tops" and "x \<in> set (addrs_where P rs (length tops))" for i x P
    using that addrs_where_range [OF that(2)] by (simp add: to_json.simps)
  have top: "to_json (tops @ rs) ?h [] i =
               Some (JNode (tops ! i) (map JRow (filter (\<lambda>r. c_parent_id r = Some (c_id (tops ! i))) rs)))"
    if i: "i < length tops" for i
  proof -
    let ?K = "addrs_where (\<lambda>r. c_parent_id r = Some (c_id (tops ! i))) rs (length tops)"
    have "those (map (to_json (tops @ rs) ?h [i]) ?K) = Some (map (\<lambda>x. JRow ((tops @ rs) ! x)) ?K)"
      by (rule those_map_Some) (rule reply [OF i])
    also have "map (\<lambda>x. JRow ((tops @ rs) ! x)) ?K = map JRow (map ((!) (tops @ rs)) ?K)"
      by (simp add: comp_def)
    also have "\<dots> = map JRow (filter (\<lambda>r. c_parent_id r = Some (c_id (tops ! i))) rs)"
      by (simp only: addrs_where_nth)
    finally show ?thesis
      using i by (simp add: to_json.simps [of _ _ "[]"] nth_append)
  qed
  have "those (map (to_json (tops @ rs) ?h []) [0..<length tops]) =
          Some (map (\<lambda>i. JNode (tops ! i)
                  (map JRow (filter (\<lambda>r. c_parent_id r = Some (c_id (tops ! i))) rs))) [0..<length tops])"
    by (rule those_map_Some) (simp add: top)
  also have "map (\<lambda>i. JNode (tops ! i)
                  (map JRow (filter (\<lambda>r. c_parent_id r = Some (c_id (tops ! i))) rs))) [0..<length tops] =
             oneLevelSpec tops rs"
    unfolding oneLevelSpec_def
    by (rule map_nth_fun [of "\<lambda>c. JNode c (map JRow (filter (\<lambda>r. c_parent_id r = Some (c_id c)) rs))"])
  finally show ?thesis
    by (simp add: buildOneLevel_def link_one_level_heap [OF assms])
qed

lemma foldr_max_zero: "(\<And>x. x \<in> set xs \<Longrightarrow> x = 0) \<Longrightarrow> foldr max xs (0::nat) = 0"
  by (induction xs) simp_all

lemma depth_oneLevelSpec: "t \<in> set (oneLevelSpec tops rs) \<Longrightarrow> depth t = 1"
  by (auto simp: oneLevelSpec_def intro!: foldr_max_zero)

lemma addrs_where_cong:
  "(\<And>c. c \<in> set cs \<Longrightarrow> P c = Q c) \<Longrightarrow> addrs_where P cs a = addrs_where Q cs a"
  by (induction cs arbitrary: a) simp_all

lemma valid_rows_truthy:
  "valid_rows cs \<Longrightarrow> c \<in> set cs \<Longrightarrow> truthy_int (c_parent_id c) \<longleftrightarrow> c_parent_id c \<noteq> None"
  by (cases "c_parent_id c") (auto simp: valid_rows_def)

lemma chain_unique:
  "distinct (map c_id cs) \<Longrightarrow> chain cs a s1 \<Longrightarrow> chain cs a s2 \<Longrightarrow> s1 = s2"
proof (induction s1 arbitrary: a s2)
  case Nil
  then show ?case by (cases s2) auto
next
  case (Cons p st)
  then obtain q st2 where s2: "s2 = q # st2" by (cases s2) auto
  with Cons.prems have pq: "p < length cs" "q < length cs" "c_id (cs ! p) = c_id (cs ! q)"
    by auto
  with Cons.prems(1) have "p = q"
    using nth_eq_iff_index_eq [of "map c_id cs" p q] by simp
  with Cons.IH [OF Cons.prems(1), of p st2] Cons.prems s2 show ?case by simp
qed

lemma chain_suffix: "chain cs a (pre @ x # post) \<Longrightarrow> chain cs x post"
  by (induction pre arbitrary: a) auto

lemma chain_fresh:
  assumes "distinct (map c_id cs)" and "chain cs a stack"
  shows "a \<notin> set stack"
proof
  assume "a \<in> set stack"
  then obtain pre post where st: "stack = pre @ a # post"
    by (auto simp: in_set_conv_decomp)
  with assms(2) have "chain cs a post" by (auto dest: chain_suffix)
  from chain_unique [OF assms(1) this assms(2)] st show False by simp
qed

lemma well_formed_parent_less:
  "well_formed cs \<Longrightarrow> c \<in> set cs \<Longrightarrow> c_parent_id c = Some p \<Longrightarrow> p < c_id c"
  by (auto simp: well_formed_def split: option.splits)

lemma link_unlimited_result:
  assumes "valid_rows cs"
  shows "link_unlimited cs =
           Some (thread_heap cs, addrs_where (\<lambda>c. c_parent_id c = None) cs 0)"
proof -
  have dist: "distinct (map c_id cs)"
    using assms by (simp add: valid_rows_def)
  let ?h0 = "fst (init_nodes cs 0 (Map.empty, Map.empty))"
  let ?m = "snd (init_nodes cs 0 (Map.empty, Map.empty))"
  have pre: "\<forall>k p. ?m k = Some p \<longrightarrow> ?h0 p \<noteq> None"
    by (auto simp: init_heap0 dest: init_index_bound)
  have "link_unlimited cs = attach_all cs 0 ?m (?h0, [])"
    by (simp add: link_unlimited_def split: prod.splits)
  also have "\<dots> = Some (\<lambda>p. map_option (\<lambda>rs. rs @ addrs_where
                    (\<lambda>c. truthy_int (c_parent_id c) \<and> lookup_parent ?m (c_parent_id c) = Some p) cs 0)
                  (?h0 p),
                 [] @ addrs_where (\<lambda>c. \<not> truthy_int (c_parent_id c)) cs 0)"
    by (rule attach_all_result [OF pre])
  also have "addrs_where (\<lambda>c. \<not> truthy_int (c_parent_id c)) cs 0 =
             addrs_where (\<lambda>c. c_parent_id c = None) cs 0"
    by (rule addrs_where_cong) (simp add: valid_rows_truthy [OF assms])
  also have "(\<lambda>p. map_option (\<lambda>rs. rs @ addrs_where
                    (\<lambda>c. truthy_int (c_parent_id c) \<and> lookup_parent ?m (c_parent_id c) = Some p) cs 0)
                  (?h0 p)) = thread_heap cs"
  proof (rule ext)
    fix p
    show "map_option (\<lambda>rs. rs @ addrs_where
                    (\<lambda>c. truthy_int (c_parent_id c) \<and> lookup_parent ?m (c_parent_id c) = Some p) cs 0)
                  (?h0 p) = thread_heap cs p"
    proof (cases "p < length cs")
      case False
      then show ?thesis by (simp add: init_heap0 thread_heap_def)
    next
      case True
      have "addrs_where (\<lambda>c. truthy_int (c_parent_id c) \<and>
                lookup_parent ?m (c_parent_id c) = Some p) cs 0 =
            addrs_where (\<lambda>c. c_parent_id c = Some (c_id (cs ! p))) cs 0"
        by (rule addrs_where_cong)
          (auto simp: lookup_parent_init_iff [OF dist True] valid_rows_truthy [OF assms])
      with True show ?thesis by (simp add: init_heap0 thread_heap_def)
    qed
  qed
  finally show ?thesis by simp
qed

lemma to_json_thread:
  "valid_rows rows \<Longrightarrow> h = thread_heap rows \<Longrightarrow> a < length rows \<Longrightarrow> chain rows a stack \<Longrightarrow>
     \<exists>t. to_json rows h stack a = Some t \<and> root t = rows ! a \<and> forest_node rows t"
proof (induction rows h stack a rule: to_json.induct)
  case (1 rows h stack a)
  let ?K = "addrs_where (\<lambda>c. c_parent_id c = Some (c_id (rows ! a))) rows 0"
  have dist: "distinct (map c_id rows)"
    using "1.prems"(1) by (simp add: valid_rows_def)
  have ha: "h a = Some ?K"
    using "1.prems" by (simp add: thread_heap_def)
  have fresh: "a \<notin> set stack"
    by (rule chain_fresh [OF dist "1.prems"(4)])
  have guard: "\<not> (a \<in> set stack \<or> length rows \<le> a)"
    using fresh "1.prems"(3) by simp
  have kid: "\<exists>t. to_json rows h (a # stack) x = Some t \<and> root t = rows ! x \<and> forest_node rows t"
    if x: "x \<in> set ?K" for x
  proof -
    have xn: "x < length rows"
      using addrs_where_range [OF x] by simp
    have par: "c_parent_id (rows ! x) = Some (c_id (rows ! a))"
      using addrs_where_holds0 [OF x] .
    have "chain rows x (a # stack)"
      using par "1.prems"(3,4) by simp
    from "1.IH" [OF guard ha x "1.prems"(1) "1.prems"(2) xn this] show ?thesis .
  qed
  let ?g = "\<lambda>x. the (to_json rows h (a # stack) x)"
  have those: "those (map (to_json rows h (a # stack)) ?K) = Some (map ?g ?K)"
    by (rule those_map_Some) (use kid in fastforce)
  have roots: "map root (map ?g ?K) = map ((!) rows) ?K"
    using kid by (fastforce simp: comp_def)
  have nodes: "\<forall>k \<in> set (map ?g ?K). forest_node rows k"
    using kid by fastforce
  have "to_json rows h stack a = Some (JNode (rows ! a) (map ?g ?K))"
    using guard ha those by (subst to_json.simps) simp
  moreover have "forest_node rows (JNode (rows ! a) (map ?g ?K))"
    using roots nodes "1.prems"(3) by (simp add: addrs_where_nth0 del: map_map)
  ultimately show ?case by simp
qed

lemma forest_node_rows:
  "forest_node cs t \<Longrightarrow> c \<in> set (json_rows t) \<Longrightarrow>
     c = root t \<or> (\<exists>d \<in> set cs. c_parent_id c = Some (c_id d))"
proof (induction t)
  case (JRow r)
  then show ?case by simp
next
  case (JNode r ks)
  show ?case
  proof (cases "c = r")
    case True
    then show ?thesis by simp
  next
    case False
    with JNode.prems(2) obtain k where k: "k \<in> set ks" "c \<in> set (json_rows k)" by auto
    from JNode.prems(1) k have fk: "forest_node cs k" by simp
    from JNode.IH [OF k(1) fk k(2)] show ?thesis
    proof
      assume "c = root k"
      with k(1) have "c \<in> set (map root ks)" by auto
      with JNode.prems(1) have "c_parent_id c = Some (c_id r)" "r \<in> set cs" by auto
      then show ?thesis by blast
    qed simp
  qed
qed

lemma buildUnlimited_forest0:
  assumes "valid_rows cs"
  shows "\<exists>forest. buildUnlimited cs = Some forest
           \<and> map root forest = filter (\<lambda>c. c_parent_id c = None) cs
           \<and> (\<forall>t \<in> set forest. forest_node cs t)"
proof -
  let ?R = "addrs_where (\<lambda>c. c_parent_id c = None) cs 0"
  let ?g = "\<lambda>a. the (to_json cs (thread_heap cs) [] a)"
  have node: "\<exists>t. to_json cs (thread_heap cs) [] a = Some t \<and> root t = cs ! a \<and> forest_node cs t"
    if "a \<in> set ?R" for a
    using to_json_thread [OF assms refl, of a "[]"] addrs_where_range [OF that]
      addrs_where_holds0 [OF that] by simp
  have "those (map (to_json cs (thread_heap cs) []) ?R) = Some (map ?g ?R)"
    by (rule those_map_Some) (use node in fastforce)
  then have 1: "buildUnlimited cs = Some (map ?g ?R)"
    by (simp add: buildUnlimited_def link_unlimited_result [OF assms])
  have "map root (map ?g ?R) = map ((!) cs) ?R"
    using node by (fastforce simp: comp_def)
  then have 2: "map root (map ?g ?R) = filter (\<lambda>c. c_parent_id c = None) cs"
    by (simp only: addrs_where_nth0)
  have 3: "\<forall>t \<in> set (map ?g ?R). forest_node cs t"
    using node by fastforce
  from 1 2 3 show ?thesis by blast
qed

subsection \<open>The recursive delete\<close>

lemma set_cte_step:
  "set (cte_step cs work) = {c_id c | c. c \<in> set cs \<and> c_parent_id c \<in> Some ` set work}"
  by (auto simp: cte_step_def)

lemma closure_empty: "closure cs {} = {}"
proof -
  have "x \<in> closure cs {} \<Longrightarrow> False" for x
    by (induction rule: closure.induct) auto
  then show ?thesis by blast
qed

lemma closure_step: "closure cs (set work) = set work \<union> closure cs (set (cte_step cs work))"
proof (intro set_eqI iffI)
  fix x assume "x \<in> closure cs (set work)"
  then show "x \<in> set work \<union> closure cs (set (cte_step cs work))"
  proof (induction rule: closure.induct)
    case (start w)
    then show ?case by simp
  next
    case (child p c)
    from child.IH show ?case
    proof
      assume "p \<in> set work"
      with child.hyps have "c_id c \<in> set (cte_step cs work)"
        by (auto simp: set_cte_step)
      then show ?thesis by (simp add: closure.start)
    next
      assume "p \<in> closure cs (set (cte_step cs work))"
      with child.hyps show ?thesis by (auto intro: closure.child)
    qed
  qed
next
  fix x assume "x \<in> set work \<union> closure cs (set (cte_step cs work))"
  then show "x \<in> closure cs (set work)"
  proof
    assume "x \<in> set work"
    then show ?thesis by (rule closure.start)
  next
    assume "x \<in> closure cs (set (cte_step cs work))"
    then show ?thesis
    proof (induction rule: closure.induct)
      case (start w)
      then obtain c td where "c \<in> set cs" "td \<in> set work" "c_parent_id c = Some td" "w = c_id c"
        by (auto simp: set_cte_step)
      then show ?case by (auto intro: closure.child closure.start)
    next
      case (child p c)
      then show ?case by (auto intro: closure.child)
    qed
  qed
qed

lemma cte_loop_closure:
  assumes wf: "well_formed cs" and top: "\<forall>c \<in> set cs. c_id c \<le> M"
  shows "nat (M - b) = k \<Longrightarrow> \<forall>w \<in> set work. b < w \<and> w \<in> c_id ` set cs \<Longrightarrow>
           \<exists>R. cte_loop cs work acc = Some (acc @ R) \<and> set work \<union> set R = closure cs (set work)"
proof (induction k arbitrary: b work acc)
  case 0
  have "work = []"
  proof (cases work)
    case (Cons w ws)
    with "0.prems"(2) top have "b < w" "w \<le> M" by auto
    with "0.prems"(1) show ?thesis by simp
  qed simp
  then show ?case by (simp add: cte_loop.simps closure_empty)
next
  case (Suc k)
  show ?case
  proof (cases "work = []")
    case True
    then show ?thesis by (simp add: cte_loop.simps closure_empty)
  next
    case False
    let ?next = "cte_step cs work"
    have "\<forall>w \<in> set ?next. b + 1 < w \<and> w \<in> c_id ` set cs"
    proof
      fix w assume "w \<in> set ?next"
      then obtain c td where c: "c \<in> set cs" "td \<in> set work" "c_parent_id c = Some td" "w = c_id c"
        by (auto simp: set_cte_step)
      from well_formed_parent_less [OF wf c(1) c(3)] Suc.prems(2) c(2) c(4) c(1)
      show "b + 1 < w \<and> w \<in> c_id ` set cs" by auto
    qed
    moreover have "nat (M - (b + 1)) = k"
      using Suc.prems(1) by simp
    ultimately obtain R where
      R: "cte_loop cs ?next (acc @ ?next) = Some ((acc @ ?next) @ R)"
         "set ?next \<union> set R = closure cs (set ?next)"
      using Suc.IH [of "b + 1" ?next "acc @ ?next"] by blast
    have "cte_loop cs work acc = Some (acc @ (?next @ R))"
      using False R(1) by (subst cte_loop.simps) simp
    moreover have "set work \<union> set (?next @ R) = closure cs (set work)"
      using R(2) closure_step [of cs work] by auto
    ultimately show ?thesis by blast
  qed
qed

lemma start_iff:
  "x \<in> set [c_id c. c \<leftarrow> cs, c_id c = rid] \<longleftrightarrow> x = rid \<and> rid \<in> c_id ` set cs"
  by auto

lemma subtree_closure:
  "subtree cs rid = closure cs (set [c_id c. c \<leftarrow> cs, c_id c = rid])"
proof -
  define W where "W = set [c_id c. c \<leftarrow> cs, c_id c = rid]"
  have W: "x \<in> W \<longleftrightarrow> x = rid \<and> rid \<in> c_id ` set cs" for x
    unfolding W_def by (rule start_iff)
  have "x \<in> closure cs W" if "x \<in> subtree cs rid" for x
    using that
  proof (induction rule: subtree.induct)
    case (root c)
    then have "c_id c \<in> W" by (auto simp: W)
    then show ?case by (rule closure.start)
  next
    case (reply p c)
    then show ?case by (auto intro: closure.child)
  qed
  moreover have "x \<in> subtree cs rid" if "x \<in> closure cs W" for x
    using that
  proof (induction rule: closure.induct)
    case (start w)
    then obtain c where "c \<in> set cs" "c_id c = rid" "w = rid" by (auto simp: W)
    then show ?case using subtree.root [of c cs rid] by simp
  next
    case (child p c)
    then show ?case by (auto intro: subtree.reply)
  qed
  ultimately show ?thesis unfolding W_def by blast
qed

lemma to_delete_subtree:
  assumes "well_formed cs"
  shows "\<exists>ids. to_delete rid cs = Some ids \<and> set ids = subtree cs rid"
proof -
  let ?start = "[c_id c. c \<leftarrow> cs, c_id c = rid]"
  define M where "M = (if cs = [] then 0 else Max (c_id ` set cs))"
  have top: "\<forall>c \<in> set cs. c_id c \<le> M"
    by (auto simp: M_def)
  have "\<forall>w \<in> set ?start. rid - 1 < w \<and> w \<in> c_id ` set cs"
    by auto
  from cte_loop_closure [OF assms top refl this, of ?start]
  obtain R where "cte_loop cs ?start ?start = Some (?start @ R)"
    "set ?start \<union> set R = closure cs (set ?start)"
    by blast
  then show ?thesis
    unfolding to_delete_def subtree_closure Let_def by (intro exI [of _ "?start @ R"]) simp
qed

lemma subtree_ids: "x \<in> subtree cs rid \<Longrightarrow> x \<in> c_id ` set cs"
  by (induction rule: subtree.induct) auto



lemma fk_cascade_none:
  "filter (\<lambda>c. c_parent_id c \<in> Some ` set dead) cs = [] \<Longrightarrow> fk_cascade dead cs = cs"
  by (subst fk_cascade.simps) simp

lemma well_formed_filter: "well_formed cs \<Longrightarrow> well_formed (filter P cs)"
  by (auto simp: well_formed_def distinct_map_filter)

lemma deleteComment_result:
  assumes "well_formed (comments s)"
  shows "deleteComment rid s =
           Some (s\<lparr>comments := filter (\<lambda>c. c_id c \<notin> subtree (comments s) rid) (comments s),
                   comment_likes :=
                     filter (\<lambda>l. cl_comment_id l \<notin> subtree (comments s) rid) (comment_likes s)\<rparr>,
                 SendStatus 204)"
proof -
  let ?cs = "comments s"
  let ?D = "subtree ?cs rid"
  from to_delete_subtree [OF assms, of rid] obtain ids where
    ids: "to_delete rid ?cs = Some ids" "set ids = ?D"
    by blast
  let ?cs1 = "filter (\<lambda>c. c_id c \<notin> set ids) ?cs"
  have cs1: "?cs1 = filter (\<lambda>c. c_id c \<notin> ?D) ?cs"
    by (simp add: ids(2))
  have "filter (\<lambda>c. c_parent_id c \<in> Some ` set ids) ?cs1 = []"
    by (auto simp: filter_empty_conv ids(2) intro: subtree.reply)
  then have casc: "fk_cascade ids ?cs1 = ?cs1"
    by (rule fk_cascade_none)
  have gone: "set (filter (\<lambda>i. i \<notin> c_id ` set ?cs1) (map c_id ?cs)) = ?D"
    by (auto simp: ids(2) dest: subtree_ids)
  show ?thesis
    unfolding deleteComment_def ids(1) option.case Let_def casc gone
    by (simp add: ids(2))
qed

subsection \<open>The store invariants are kept\<close>

lemma or_null_nonzero: "or_null par \<noteq> Some 0"
  by (cases par) (auto simp: or_null_def)

lemma insert_comment_db_ok:
  "db_ok s \<Longrightarrow> db_ok (fst (insert_comment pid uid text (or_null par) now s))"
  using or_null_nonzero [of par]
  by (fastforce simp: db_ok_def insert_comment_def Let_def split: option.splits)

lemma createComment_state:
  "comments (fst (createComment body now s)) =
     comments (fst (insert_comment (postid body) (to_db (userid body)) (content body)
        (or_null (parent_id body)) now s)) \<and>
   comments_id_seq (fst (createComment body now s)) =
     comments_id_seq (fst (insert_comment (postid body) (to_db (userid body)) (content body)
        (or_null (parent_id body)) now s))"
  by (auto simp: createComment_def insert_notification_def split: prod.splits sum.splits option.splits)

lemma createComment_db_ok: "db_ok s \<Longrightarrow> db_ok (fst (createComment body now s))"
  using insert_comment_db_ok [of s "postid body" "to_db (userid body)" "content body"
      "parent_id body" now] createComment_state [of body now s]
  by (simp add: db_ok_def)

lemma fk_cascade_filter: "\<exists>P. fk_cascade dead cs = filter P cs"
proof (induction dead cs rule: fk_cascade.induct)
  case (1 dead cs)
  let ?v = "filter (\<lambda>c. c_parent_id c \<in> Some ` set dead) cs"
  show ?case
  proof (cases "?v = []")
    case True
    then have "fk_cascade dead cs = filter (\<lambda>_. True) cs"
      by (subst fk_cascade.simps) simp
    then show ?thesis by blast
  next
    case False
    from "1.IH" [OF refl False] obtain P where
      "fk_cascade (map c_id ?v) (filter (\<lambda>c. c_parent_id c \<notin> Some ` set dead) cs) =
         filter P (filter (\<lambda>c. c_parent_id c \<notin> Some ` set dead) cs)"
      by blast
    with False have "fk_cascade dead cs =
        filter (\<lambda>c. c_parent_id c \<notin> Some ` set dead \<and> P c) cs"
      by (subst fk_cascade.simps) (simp add: Let_def)
    then show ?thesis by blast
  qed
qed

lemma deleteComment_db_ok:
  assumes "db_ok s" and "deleteComment rid s = Some (s', r)"
  shows "db_ok s'"
proof -
  from assms(2) obtain ids where
    s': "s' = s\<lparr>comments := fk_cascade ids (filter (\<lambda>c. c_id c \<notin> set ids) (comments s)),
               comment_likes := comment_likes s'\<rparr>"
    by (auto simp: deleteComment_def Let_def split: option.splits)
  obtain P where "fk_cascade ids (filter (\<lambda>c. c_id c \<notin> set ids) (comments s)) =
      filter P (filter (\<lambda>c. c_id c \<notin> set ids) (comments s))"
    using fk_cascade_filter by blast
  with s' have "comments s' = filter (\<lambda>c. c_id c \<notin> set ids \<and> P c) (comments s)"
    "comments_id_seq s' = comments_id_seq s"
    by (cases s', simp)+
  with assms(1) show ?thesis
    by (auto simp: db_ok_def distinct_map_filter)
qed

lemma togglePostLike_db_ok: "db_ok s \<Longrightarrow> db_ok (fst (togglePostLike pid userId s))"
  by (simp add: db_ok_def other_tables_togglePostLike)

lemma toggleCommentLike_db_ok: "db_ok s \<Longrightarrow> db_ok (fst (toggleCommentLike cid userId s))"
  by (auto simp: db_ok_def toggleCommentLike_def insert_comment_like_def Let_def split: sum.splits)

lemma db_ok_valid_rows: "db_ok s \<Longrightarrow> valid_rows (filter P (comments s))"
  by (auto simp: db_ok_def valid_rows_def distinct_map_filter)

lemma createComment_well_formed:
  assumes "db_ok s" and "well_formed (comments s)"
    and "parent_id body \<noteq> Some (comments_id_seq s + 1)"
  shows "well_formed (comments (fst (createComment body now s)))"
proof -
  let ?r = "insert_comment (postid body) (to_db (userid body)) (content body)
        (or_null (parent_id body)) now s"
  have "well_formed (comments (fst ?r))"
    using assms
    by (auto simp: insert_comment_def Let_def well_formed_def db_ok_def or_null_def
        split: option.splits if_splits)
  then show ?thesis by (simp add: createComment_state)
qed

lemma deleteComment_well_formed:
  assumes "well_formed (comments s)" and "deleteComment rid s = Some (s', r)"
  shows "well_formed (comments s')"
  using assms deleteComment_result [OF assms(1), of rid] by (auto simp: well_formed_filter)

subsection \<open>A parent cycle\<close>

text \<open>The foreign key accepts a reply whose \<open>parent_id\<close> is the id the sequence gives it
  next; the table is then no longer \<open>well_formed\<close>, and deleting that comment does not
  return.\<close>

lemma cte_loop_None:
  assumes inv: "\<And>W. I W \<Longrightarrow> W \<noteq> [] \<and> I (cte_step cs W)" and "I work"
  shows "cte_loop cs work acc = None"
proof (cases "cte_loop cs work acc")
  case (Some y)
  have "cs' = cs \<longrightarrow> \<not> I W" if "cte_loop cs' W a = Some y'" for cs' W a y'
  proof (rule cte_loop.raw_induct [where P = "\<lambda>cs' W a y. cs' = cs \<longrightarrow> \<not> I W", OF _ that])
    fix self cs' W a y'
    assume IH: "\<And>work acc b y. self work acc b = Some y \<Longrightarrow> work = cs \<longrightarrow> \<not> I acc"
      and eq: "(if W = [] then Some a
                else self cs' (cte_step cs' W) (a @ cte_step cs' W)) = Some y'"
    show "cs' = cs \<longrightarrow> \<not> I W"
    proof (intro impI notI)
      assume *: "cs' = cs" "I W"
      with inv have "W \<noteq> []" "I (cte_step cs W)" by auto
      with eq * have "self cs (cte_step cs W) (a @ cte_step cs W) = Some y'" by simp
      from IH [OF this] \<open>I (cte_step cs W)\<close> show False by simp
    qed
  qed
  with Some assms(2) show ?thesis by blast
qed simp

lemma createComment_self_parent:
  "createComment \<lparr>postid = Some 1, userid = JString ''u3'', content = Some ''x'',
      parent_id = Some 2\<rparr> 9 example_db =
     (example_db\<lparr>comments_id_seq := 2, comments := [example_comment, self_reply]\<rparr>,
      Json self_reply)"
  by (simp add: createComment_def insert_comment_def or_null_def Let_def notification_for_def
      deriveRecipient_def example_db_def example_comment_def example_post_def self_reply_def)

lemma deleteComment_self_parent:
  "deleteComment 2 (example_db\<lparr>comments_id_seq := 2, comments := [example_comment, self_reply]\<rparr>)
     = None"
proof -
  let ?cs = "[example_comment, self_reply]"
  have "cte_loop ?cs [2] [2] = None"
    by (rule cte_loop_None [where I = "\<lambda>W. 2 \<in> set W"])
      (auto simp: cte_step_def self_reply_def)
  then show ?thesis
    by (simp add: deleteComment_def to_delete_def example_comment_def self_reply_def)
qed

section \<open>Theorems\<close>



text \<open>
  Claim C10. On an existing post the array toggle with a member removes every
  occurrence of the user id and keeps the other entries in their order; with a non-member
  it appends the user id at the end and keeps every entry. Rows of other posts, and
  every other table, are as before.
\<close>

theorem togglePostLike_array_effect:
  assumes "pid \<in> p_id ` set (posts s)"
  shows "stored_likes pid (fst (togglePostLike pid (JString u) s)) =
           (if Some u \<in> set (stored_likes pid s)
            then filter (\<lambda>x. x \<noteq> Some u) (stored_likes pid s)
            else stored_likes pid s @ [Some u])
         \<and> filter (\<lambda>p. p_id p \<noteq> pid) (posts (fst (togglePostLike pid (JString u) s))) =
             filter (\<lambda>p. p_id p \<noteq> pid) (posts s)
         \<and> map p_id (posts (fst (togglePostLike pid (JString u) s))) = map p_id (posts s)
         \<and> comments (fst (togglePostLike pid (JString u) s)) = comments s
         \<and> comment_likes (fst (togglePostLike pid (JString u) s)) = comment_likes s
         \<and> notifications (fst (togglePostLike pid (JString u) s)) = notifications s
         \<and> comments_id_seq (fst (togglePostLike pid (JString u) s)) = comments_id_seq s"
  using stored_likes_toggle_JString [OF assms, of u]
    post_frame_togglePostLike [of pid "JString u" s]
    post_ids_togglePostLike [of pid "JString u" s]
    other_tables_togglePostLike [of pid "JString u" s]
  by blast

theorem togglePostLike_array_effect_witness:
  "stored_likes 1 (fst (togglePostLike 1 (JString ''a'') example_db)) = [Some ''b'']
   \<and> stored_likes 1 (fst (togglePostLike 1 (JString ''z'') example_db)) =
       [Some ''a'', Some ''b'', Some ''a'', Some ''z'']"
  using togglePostLike_array_effect [of 1 example_db "''a''"]
    togglePostLike_array_effect [of 1 example_db "''z''"]
  by (simp add: example_db_def example_post_def stored_likes_def)

text \<open>
  Claim C3. For a user id \<open>u\<close>, the first toggle removes \<open>u\<close> from the members when it
  is one and adds it otherwise, and a second toggle by \<open>u\<close> brings the membership back
  to what it was: for the likes array of an existing post, and for the rows of
  \<open>comment_likes\<close> of an existing comment.
\<close>

theorem toggle_twice_restores_members:
  assumes "pid \<in> p_id ` set (posts s)" and "cid \<in> c_id ` set (comments s)"
  shows "post_members pid (fst (togglePostLike pid (JString u) s)) =
           (if Some u \<in> post_members pid s then post_members pid s - {Some u}
            else insert (Some u) (post_members pid s))
         \<and> post_members pid
             (fst (togglePostLike pid (JString u) (fst (togglePostLike pid (JString u) s)))) =
             post_members pid s
         \<and> comment_members cid (fst (toggleCommentLike cid (JString u) s)) =
           (if Some u \<in> comment_members cid s then comment_members cid s - {Some u}
            else insert (Some u) (comment_members cid s))
         \<and> comment_members cid
             (fst (toggleCommentLike cid (JString u) (fst (toggleCommentLike cid (JString u) s)))) =
             comment_members cid s"
proof -
  let ?s1 = "fst (togglePostLike pid (JString u) s)"
  let ?t1 = "fst (toggleCommentLike cid (JString u) s)"
  have p1: "post_members pid ?s1 =
           (if Some u \<in> post_members pid s then post_members pid s - {Some u}
            else insert (Some u) (post_members pid s))"
    by (rule post_members_toggle [OF assms(1)])
  have "pid \<in> p_id ` set (posts ?s1)"
    by (rule post_exists_after_toggle [OF assms(1)])
  from post_members_toggle [OF this, of u] p1
  have p2: "post_members pid (fst (togglePostLike pid (JString u) ?s1)) = post_members pid s"
    by auto
  have c1: "comment_members cid ?t1 =
           (if Some u \<in> comment_members cid s then comment_members cid s - {Some u}
            else insert (Some u) (comment_members cid s))"
    by (rule comment_members_toggle [OF assms(2)])
  have "cid \<in> c_id ` set (comments ?t1)"
    using assms(2) by (simp add: comments_toggleCommentLike)
  from comment_members_toggle [OF this, of u] c1
  have c2: "comment_members cid (fst (toggleCommentLike cid (JString u) ?t1)) =
              comment_members cid s"
    by auto
  from p1 p2 c1 c2 show ?thesis by blast
qed

theorem toggle_twice_restores_members_witness:
  "post_members 1 (fst (togglePostLike 1 (JString ''a'') example_db)) = {Some ''b''}
   \<and> post_members 1
        (fst (togglePostLike 1 (JString ''a'') (fst (togglePostLike 1 (JString ''a'') example_db)))) =
       {Some ''a'', Some ''b''}
   \<and> comment_members 1 (fst (toggleCommentLike 1 (JString ''a'') example_db)) =
       {Some ''a'', Some ''b''}
   \<and> comment_members 1
        (fst (toggleCommentLike 1 (JString ''a'') (fst (toggleCommentLike 1 (JString ''a'') example_db)))) =
       {Some ''b''}"
proof -
  have pm: "post_members 1 example_db = {Some ''a'', Some ''b''}"
    by (auto simp: post_members_def stored_likes_def example_db_def example_post_def)
  have cm: "comment_members 1 example_db = {Some ''b''}"
    by (auto simp: comment_members_def example_db_def)
  have ex: "1 \<in> p_id ` set (posts example_db)" "1 \<in> c_id ` set (comments example_db)"
    by (simp_all add: example_db_def example_post_def example_comment_def)
  from toggle_twice_restores_members [OF ex, of "''a''"] pm cm show ?thesis
    by auto
qed




text \<open>
  Claim C1, as stated, fails: a reply by \<open>u3\<close> to an existing comment whose author is
  the empty string has a parent with a different author, and yet no notification is
  derived or inserted.
\<close>

theorem reply_to_blank_author_counterexample:
  "parent_author (Some 2) example_db2 = Some (JString '''')
   \<and> JString '''' \<noteq> JString ''u3''
   \<and> notification_for (Some 2) (JString ''u3'') (Some 1) example_db2 = None
   \<and> createComment \<lparr>postid = Some 1, userid = JString ''u3'', content = Some ''x'',
        parent_id = Some 2\<rparr> 9 example_db2 =
       (example_db2\<lparr>comments_id_seq := 3, comments := comments example_db2 @
          [\<lparr>c_id = 3, c_postid = Some 1, c_userid = Some ''u3'', c_content = ''x'',
            c_parent_id = Some 2, c_createdat = 9\<rparr>]\<rparr>,
        Json \<lparr>c_id = 3, c_postid = Some 1, c_userid = Some ''u3'', c_content = ''x'',
            c_parent_id = Some 2, c_createdat = 9\<rparr>)"
  by (simp add: parent_author_def notification_for_def deriveRecipient_def createComment_def
      insert_comment_def or_null_def Let_def example_db2_def example_comment_def
      blank_comment_def example_post_def anon_post_def)

text \<open>
  Claim C1, amended. For a newly created comment whose \<open>parent_id\<close> is non-null, no
  notification is derived (and none is inserted) if and only if no comment has that id,
  or the parent's author equals the new comment's author, or the parent's author is
  \<open>NULL\<close> or the empty string. Otherwise exactly one recipient is derived, the parent's
  author, with type \<open>reply\<close>, and given a post id one notification row is appended for it.
\<close>

theorem reply_notification_rule:
  assumes "insert_comment (postid body) (to_db (userid body)) (content body)
           (or_null (parent_id body)) now s = (s1, Inr c)"
    and "c_parent_id c \<noteq> None"
  shows "notification_for (parent_id body) (userid body) (postid body) s1 =
           (case parent_author (parent_id body) s1 of
              None \<Rightarrow> None
            | Some a \<Rightarrow>
                if a = userid body \<or> a = JNull \<or> a = JString '''' then None
                else Some (a, ''reply''))
         \<and> notifications (fst (createComment body now s)) =
           (case notification_for (parent_id body) (userid body) (postid body) s1 of
              None \<Rightarrow> notifications s
            | Some (a, t) \<Rightarrow>
                (case (to_db a, postid body) of
                   (Some u, Some p) \<Rightarrow> notifications s @
                     [\<lparr>n_user_id = u, n_type = t, n_post_id = p, n_comment_id = c_id c\<rparr>]
                 | _ \<Rightarrow> notifications s))"
proof -
  have t: "truthy_int (parent_id body)"
    using insert_comment_InrD(6) [OF assms(1)] assms(2) by (auto simp: or_null_def split: if_splits)
  have "notification_for (parent_id body) (userid body) (postid body) s1 =
           (case parent_author (parent_id body) s1 of
              None \<Rightarrow> None
            | Some a \<Rightarrow>
                if a = userid body \<or> a = JNull \<or> a = JString '''' then None
                else Some (a, ''reply''))"
    unfolding notification_for_reply [OF t]
    by (auto split: option.splits dest!: parent_author_SomeD simp: falsy_from_db)
  then show ?thesis
    using createComment_notifications [OF assms(1)] by simp
qed

theorem reply_notification_rule_witness:
  "notification_for (Some 1) (JString ''u3'') (Some 1)
     (example_db\<lparr>comments_id_seq := 2, comments := [example_comment,
        \<lparr>c_id = 2, c_postid = Some 1, c_userid = Some ''u3'', c_content = ''x'',
          c_parent_id = Some 1, c_createdat = 9\<rparr>]\<rparr>) = Some (JString ''u2'', ''reply'')
   \<and> notifications (fst (createComment \<lparr>postid = Some 1, userid = JString ''u3'',
        content = Some ''x'', parent_id = Some 1\<rparr> 9 example_db)) =
       [\<lparr>n_user_id = ''u2'', n_type = ''reply'', n_post_id = 1, n_comment_id = 2\<rparr>]"
proof -
  let ?body = "\<lparr>postid = Some 1, userid = JString ''u3'', content = Some ''x'',
                 parent_id = Some 1\<rparr>"
  let ?c = "\<lparr>c_id = 2, c_postid = Some 1, c_userid = Some ''u3'', c_content = ''x'',
              c_parent_id = Some 1, c_createdat = 9\<rparr>"
  let ?s1 = "example_db\<lparr>comments_id_seq := 2, comments := [example_comment, ?c]\<rparr>"
  have ins: "insert_comment (postid ?body) (to_db (userid ?body)) (content ?body)
               (or_null (parent_id ?body)) 9 example_db = (?s1, Inr ?c)"
    by (simp add: insert_comment_def or_null_def Let_def example_db_def example_comment_def
        example_post_def)
  have par: "c_parent_id ?c \<noteq> None" by simp
  have pa: "parent_author (Some 1) ?s1 = Some (JString ''u2'')"
    by (simp add: parent_author_def example_db_def example_comment_def)
  from reply_notification_rule [OF ins par] pa show ?thesis
    by (simp add: example_db_def)
qed

text \<open>
  Claim C2, as stated, fails: a top-level comment by \<open>u3\<close> on an existing post whose
  \<open>user_id\<close> is \<open>NULL\<close> is on a post with a different author, and yet no notification
  is derived or inserted.
\<close>

theorem comment_on_anonymous_post_counterexample:
  "post_author (Some 2) example_db2 = Some JNull
   \<and> JNull \<noteq> JString ''u3''
   \<and> notification_for None (JString ''u3'') (Some 2) example_db2 = None
   \<and> createComment \<lparr>postid = Some 2, userid = JString ''u3'', content = Some ''x'',
        parent_id = None\<rparr> 9 example_db2 =
       (example_db2\<lparr>comments_id_seq := 3, comments := comments example_db2 @
          [\<lparr>c_id = 3, c_postid = Some 2, c_userid = Some ''u3'', c_content = ''x'',
            c_parent_id = None, c_createdat = 9\<rparr>]\<rparr>,
        Json \<lparr>c_id = 3, c_postid = Some 2, c_userid = Some ''u3'', c_content = ''x'',
            c_parent_id = None, c_createdat = 9\<rparr>)"
  by (simp add: post_author_def notification_for_def deriveRecipient_def createComment_def
      insert_comment_def or_null_def Let_def example_db2_def example_comment_def
      blank_comment_def example_post_def anon_post_def)

text \<open>
  Claim C2, amended. For a newly created comment whose \<open>parent_id\<close> is null, no
  notification is derived (and none is inserted) if and only if no post has the
  comment's post id, or the post's author equals the new comment's author, or the post's
  author is \<open>NULL\<close> or the empty string. Otherwise exactly one recipient is derived, the
  post's author, with type \<open>comment\<close>, and one notification row is appended for it.
\<close>

theorem top_level_notification_rule:
  assumes "insert_comment (postid body) (to_db (userid body)) (content body)
           (or_null (parent_id body)) now s = (s1, Inr c)"
    and "c_parent_id c = None"
  shows "notification_for (parent_id body) (userid body) (postid body) s1 =
           (case post_author (postid body) s1 of
              None \<Rightarrow> None
            | Some a \<Rightarrow>
                if a = userid body \<or> a = JNull \<or> a = JString '''' then None
                else Some (a, ''comment''))
         \<and> notifications (fst (createComment body now s)) =
           (case notification_for (parent_id body) (userid body) (postid body) s1 of
              None \<Rightarrow> notifications s
            | Some (a, t) \<Rightarrow>
                (case (to_db a, postid body) of
                   (Some u, Some p) \<Rightarrow> notifications s @
                     [\<lparr>n_user_id = u, n_type = t, n_post_id = p, n_comment_id = c_id c\<rparr>]
                 | _ \<Rightarrow> notifications s))"
proof -
  have t: "\<not> truthy_int (parent_id body)"
    using insert_comment_InrD(6) [OF assms(1)] assms(2)
    by (cases "parent_id body") (auto simp: or_null_def split: if_splits)
  have "notification_for (parent_id body) (userid body) (postid body) s1 =
           (case post_author (postid body) s1 of
              None \<Rightarrow> None
            | Some a \<Rightarrow>
                if a = userid body \<or> a = JNull \<or> a = JString '''' then None
                else Some (a, ''comment''))"
    unfolding notification_for_top_level [OF t]
    by (auto split: option.splits dest!: post_author_SomeD simp: falsy_from_db)
  then show ?thesis
    using createComment_notifications [OF assms(1)] by simp
qed

theorem top_level_notification_rule_witness:
  "notification_for None (JString ''u3'') (Some 1)
     (example_db\<lparr>comments_id_seq := 2, comments := [example_comment,
        \<lparr>c_id = 2, c_postid = Some 1, c_userid = Some ''u3'', c_content = ''x'',
          c_parent_id = None, c_createdat = 9\<rparr>]\<rparr>) = Some (JString ''u1'', ''comment'')
   \<and> notifications (fst (createComment \<lparr>postid = Some 1, userid = JString ''u3'',
        content = Some ''x'', parent_id = None\<rparr> 9 example_db)) =
       [\<lparr>n_user_id = ''u1'', n_type = ''comment'', n_post_id = 1, n_comment_id = 2\<rparr>]"
proof -
  let ?body = "\<lparr>postid = Some 1, userid = JString ''u3'', content = Some ''x'',
                 parent_id = None\<rparr>"
  let ?c = "\<lparr>c_id = 2, c_postid = Some 1, c_userid = Some ''u3'', c_content = ''x'',
              c_parent_id = None, c_createdat = 9\<rparr>"
  let ?s1 = "example_db\<lparr>comments_id_seq := 2, comments := [example_comment, ?c]\<rparr>"
  have ins: "insert_comment (postid ?body) (to_db (userid ?body)) (content ?body)
               (or_null (parent_id ?body)) 9 example_db = (?s1, Inr ?c)"
    by (simp add: insert_comment_def or_null_def Let_def example_db_def example_comment_def
        example_post_def)
  have par: "c_parent_id ?c = None" by simp
  have pa: "post_author (Some 1) ?s1 = Some (JString ''u1'')"
    by (simp add: post_author_def example_db_def example_post_def)
  from top_level_notification_rule [OF ins par] pa show ?thesis
    by (simp add: example_db_def)
qed

text \<open>
  Claim C8, as stated, fails: a reply that names no post id is inserted, a recipient is
  derived, the notification insert violates \<open>NOT NULL\<close> on \<open>post_id\<close>, and the handler
  ends without returning the created comment.
\<close>

theorem createComment_notification_failure_counterexample:
  "insert_comment None (Some ''u3'') (Some ''x'') (Some 1) 9 example_db =
     (example_db\<lparr>comments_id_seq := 2, comments := [example_comment,
        \<lparr>c_id = 2, c_postid = None, c_userid = Some ''u3'', c_content = ''x'',
          c_parent_id = Some 1, c_createdat = 9\<rparr>]\<rparr>,
      Inr \<lparr>c_id = 2, c_postid = None, c_userid = Some ''u3'', c_content = ''x'',
          c_parent_id = Some 1, c_createdat = 9\<rparr>)
   \<and> createComment \<lparr>postid = None, userid = JString ''u3'', content = Some ''x'',
        parent_id = Some 1\<rparr> 9 example_db =
     (example_db\<lparr>comments_id_seq := 2, comments := [example_comment,
        \<lparr>c_id = 2, c_postid = None, c_userid = Some ''u3'', c_content = ''x'',
          c_parent_id = Some 1, c_createdat = 9\<rparr>]\<rparr>,
      Rejected NotNullViolation)"
  by (simp add: notification_for_def deriveRecipient_def createComment_def
      insert_comment_def insert_notification_def or_null_def Let_def example_db_def
      example_comment_def example_post_def)

text \<open>
  Claim C8, amended. Whenever the comment row was inserted it stays inserted, whatever
  the notification step does. The created comment is returned unless the notification
  insert fails, which it does exactly when a recipient is derived and the request names
  no post id; the handler then ends without a response.
\<close>

theorem createComment_keeps_comment:
  assumes "insert_comment (postid body) (to_db (userid body)) (content body)
           (or_null (parent_id body)) now s = (s1, Inr c)"
  shows "comments (fst (createComment body now s)) = comments s @ [c]
         \<and> snd (createComment body now s) =
           (if notification_for (parent_id body) (userid body) (postid body) s1 \<noteq> None
               \<and> postid body = None
            then Rejected NotNullViolation else Json c)"
  using createComment_comments [OF assms] createComment_response [OF assms] by simp

theorem createComment_keeps_comment_witness:
  "comments (fst (createComment \<lparr>postid = Some 1, userid = JString ''u3'',
        content = Some ''x'', parent_id = Some 1\<rparr> 9 example_db)) =
     [example_comment, \<lparr>c_id = 2, c_postid = Some 1, c_userid = Some ''u3'', c_content = ''x'',
          c_parent_id = Some 1, c_createdat = 9\<rparr>]
   \<and> snd (createComment \<lparr>postid = Some 1, userid = JString ''u3'',
        content = Some ''x'', parent_id = Some 1\<rparr> 9 example_db) =
     Json \<lparr>c_id = 2, c_postid = Some 1, c_userid = Some ''u3'', c_content = ''x'',
          c_parent_id = Some 1, c_createdat = 9\<rparr>"
proof -
  let ?body = "\<lparr>postid = Some 1, userid = JString ''u3'', content = Some ''x'',
                 parent_id = Some 1\<rparr>"
  let ?c = "\<lparr>c_id = 2, c_postid = Some 1, c_userid = Some ''u3'', c_content = ''x'',
              c_parent_id = Some 1, c_createdat = 9\<rparr>"
  let ?s1 = "example_db\<lparr>comments_id_seq := 2, comments := [example_comment, ?c]\<rparr>"
  have ins: "insert_comment (postid ?body) (to_db (userid ?body)) (content ?body)
               (or_null (parent_id ?body)) 9 example_db = (?s1, Inr ?c)"
    by (simp add: insert_comment_def or_null_def Let_def example_db_def example_comment_def
        example_post_def)
  from createComment_keeps_comment [OF ins] show ?thesis
    by (simp add: example_db_def)
qed

text \<open>
  Claim C6. Given top-level comments with distinct ids, the one-level builder returns
  them in their input order, each with a \<open>replies\<close> array holding exactly the replies
  whose \<open>parent_id\<close> is its id, in the input order of the replies; a reply whose
  \<open>parent_id\<close> is no top-level id appears nowhere; and a reply has no \<open>replies\<close> of its
  own, so no nesting is deeper than one level.
\<close>

theorem buildOneLevel_one_level:
  assumes "distinct (map c_id topLevel)"
  shows "buildOneLevel topLevel replies = Some (oneLevelSpec topLevel replies)
         \<and> map root (oneLevelSpec topLevel replies) = topLevel
         \<and> (\<forall>t \<in> set (oneLevelSpec topLevel replies). depth t = 1)
         \<and> (\<forall>r \<in> set replies. c_parent_id r \<notin> Some ` c_id ` set topLevel \<longrightarrow>
              (\<forall>t \<in> set (oneLevelSpec topLevel replies). \<forall>ks. t = JNode (root t) ks \<longrightarrow>
                 JRow r \<notin> set ks))"
proof -
  have 1: "buildOneLevel topLevel replies = Some (oneLevelSpec topLevel replies)"
    by (rule buildOneLevel_eq [OF assms])
  have 2: "map root (oneLevelSpec topLevel replies) = topLevel"
    by (simp add: oneLevelSpec_def comp_def)
  have 3: "\<forall>t \<in> set (oneLevelSpec topLevel replies). depth t = 1"
    by (simp add: depth_oneLevelSpec)
  have 4: "\<forall>r \<in> set replies. c_parent_id r \<notin> Some ` c_id ` set topLevel \<longrightarrow>
              (\<forall>t \<in> set (oneLevelSpec topLevel replies). \<forall>ks. t = JNode (root t) ks \<longrightarrow>
                 JRow r \<notin> set ks)"
    by (auto simp: oneLevelSpec_def)
  from 1 2 3 4 show ?thesis by blast
qed

theorem buildOneLevel_one_level_witness:
  "buildOneLevel page page_replies =
     Some [JNode (sample_comment 1 None)
             [JRow (sample_comment 2 (Some 1)), JRow (sample_comment 8 (Some 1))],
           JNode (sample_comment 7 None) []]"
proof -
  have "distinct (map c_id page)"
    by (simp add: page_def sample_comment_def)
  from buildOneLevel_one_level [OF this, of page_replies] show ?thesis
    by (simp add: oneLevelSpec_def page_def page_replies_def sample_comment_def)
qed

text \<open>
  Claim C5. Over the comments of a post (distinct ids, no parent id \<open>0\<close>), the
  unlimited builder answers with a forest: its roots are the
  comments with a null \<open>parent_id\<close>, in input order; the \<open>replies\<close> array of every
  comment, in the forest or not, holds exactly the comments naming it as parent, in
  input order, so a comment is pushed to its parent's \<open>replies\<close> exactly when the parent is
  in the input; every node of the forest has these replies as its children; and a comment
  whose parent is not in the input appears nowhere in the forest.
\<close>

theorem buildUnlimited_forest:
  assumes "valid_rows cs"
  shows "\<exists>h tree forest.
           link_unlimited cs = Some (h, tree) \<and> buildUnlimited cs = Some forest
         \<and> (\<forall>p < length cs. \<exists>ks. h p = Some ks \<and>
              map ((!) cs) ks = filter (\<lambda>c. c_parent_id c = Some (c_id (cs ! p))) cs)
         \<and> map root forest = filter (\<lambda>c. c_parent_id c = None) cs
         \<and> (\<forall>t \<in> set forest. forest_node cs t)
         \<and> (\<forall>c \<in> set cs. c_parent_id c \<notin> insert None (Some ` c_id ` set cs) \<longrightarrow>
              c \<notin> set (concat (map json_rows forest)))"
proof -
  from buildUnlimited_forest0 [OF assms] obtain forest where
    b: "buildUnlimited cs = Some forest" and
    r: "map root forest = filter (\<lambda>c. c_parent_id c = None) cs" and
    n: "\<forall>t \<in> set forest. forest_node cs t"
    by blast
  have l: "link_unlimited cs =
             Some (thread_heap cs, addrs_where (\<lambda>c. c_parent_id c = None) cs 0)"
    by (rule link_unlimited_result [OF assms])
  have h: "\<forall>p < length cs. \<exists>ks. thread_heap cs p = Some ks \<and>
              map ((!) cs) ks = filter (\<lambda>c. c_parent_id c = Some (c_id (cs ! p))) cs"
    by (simp add: thread_heap_def addrs_where_nth0)
  have o: "c \<notin> set (concat (map json_rows forest))"
    if c: "c \<in> set cs" and orphan: "c_parent_id c \<notin> insert None (Some ` c_id ` set cs)" for c
  proof
    assume "c \<in> set (concat (map json_rows forest))"
    then obtain t where t: "t \<in> set forest" "c \<in> set (json_rows t)" by auto
    from n t(1) have "forest_node cs t" by blast
    from forest_node_rows [OF this t(2)] show False
    proof
      assume "c = root t"
      with t(1) have "c \<in> set (map root forest)" by auto
      with r orphan show False by auto
    next
      assume "\<exists>d \<in> set cs. c_parent_id c = Some (c_id d)"
      with orphan show False by auto
    qed
  qed
  from l b h r n o show ?thesis by blast
qed

theorem buildUnlimited_forest_witness:
  "valid_rows thread
   \<and> map_option (map (c_id \<circ> root)) (buildUnlimited thread) = Some [1, 7]
   \<and> map_option (map (map c_id \<circ> json_rows)) (buildUnlimited thread) =
       Some [[1, 2, 6, 8], [7]]"
proof -
  have wf: "valid_rows thread"
    by (simp add: valid_rows_def thread_def sample_comment_def)
  from buildUnlimited_forest [OF wf] obtain forest where
    b: "buildUnlimited thread = Some forest" and
    r: "map root forest = filter (\<lambda>c. c_parent_id c = None) thread"
    by blast
  have "map (c_id \<circ> root) forest = map c_id (map root forest)" by simp
  also have "\<dots> = [1, 7]"
    unfolding r by (simp add: thread_def sample_comment_def)
  finally have 1: "map_option (map (c_id \<circ> root)) (buildUnlimited thread) = Some [1, 7]"
    using b by simp
  have 2: "map_option (map (map c_id \<circ> json_rows)) (buildUnlimited thread) =
       Some [[1, 2, 6, 8], [7]]"
    by (simp add: buildUnlimited_def link_unlimited_def thread_def sample_comment_def
        lookup_parent_def push_reply_def to_json.simps)
  from wf 1 2 show ?thesis by blast
qed



end
